theory Spec2Isabelle
  imports Main "HOL-Library.Word" "HOL-Library.Multiset"
begin

unbundle bit_operations_syntax

section \<open>Bytes, strings and clipboard data\<close>

text \<open>
  A \<open>QByteArray\<close> is a list of bytes and a \<open>QString\<close> a list of characters. A
  \<open>QMimeData\<close> holds one payload per format name; \<open>formats()\<close> lists the names in
  the order they were set, and \<open>data(mime)\<close> is the payload, the empty byte array for
  a format the object does not hold.
\<close>

type_synonym byte = "8 word"
type_synonym QByteArray = "byte list"
type_synonym QString = string
type_synonym QMimeData = "(QString \<times> QByteArray) list"

definition formats_of :: "QMimeData \<Rightarrow> QString list" where
  "formats_of d = map fst d"

definition hasFormat :: "QMimeData \<Rightarrow> QString \<Rightarrow> bool" where
  "hasFormat d mime = (map_of d mime \<noteq> None)"

definition mime_data :: "QMimeData \<Rightarrow> QString \<Rightarrow> QByteArray" where
  "mime_data d mime = (case map_of d mime of None \<Rightarrow> [] | Some bytes \<Rightarrow> bytes)"

text \<open>Text in a payload: one character per byte.\<close>

definition byte_of_char :: "char \<Rightarrow> byte" where
  "byte_of_char c = of_nat (of_char c)"

definition char_of_byte :: "byte \<Rightarrow> char" where
  "char_of_byte b = char_of (unat b)"

section \<open>Message channel (client\_server.cpp)\<close>

subsection \<open>QDataStream integers\<close>

text \<open>
  A \<open>QDataStream\<close> writes a 32-bit integer as four bytes, most significant first.
  Reading one from fewer than four bytes gives 0.
\<close>

definition writeUInt32 :: "32 word \<Rightarrow> QByteArray" where
  "writeUInt32 w =
     [ucast (drop_bit 24 w), ucast (drop_bit 16 w), ucast (drop_bit 8 w), ucast w]"

definition readUInt32 :: "QByteArray \<Rightarrow> 32 word" where
  "readUInt32 bs =
     (case take 4 bs of
        [b0, b1, b2, b3] \<Rightarrow>
          push_bit 24 (ucast b0) OR push_bit 16 (ucast b1) OR push_bit 8 (ucast b2) OR ucast b3
      | _ \<Rightarrow> 0)"

text \<open>
  \<open>QDataStream::writeBytes(s, len)\<close>: the length as a \<open>quint32\<close>, then \<open>len\<close> raw
  bytes of \<open>s\<close>.
\<close>

definition writeBytes :: "QByteArray \<Rightarrow> 32 word \<Rightarrow> QByteArray" where
  "writeBytes s len = writeUInt32 len @ take (unat len) s"

subsection \<open>The device\<close>

text \<open>
  The socket as the reader and the writer see it: the bytes that have arrived and are
  not read yet (\<open>bytesAvailable()\<close> is their number), the chunks that later calls of
  \<open>waitForReadyRead\<close> deliver, one per call, and the bytes written so far. When no
  chunk is left \<open>waitForReadyRead\<close> times out and returns false.
\<close>

record QIODevice =
  buffered :: QByteArray
  arriving :: "QByteArray list"
  written :: QByteArray

definition bytesAvailable :: "QIODevice \<Rightarrow> int" where
  "bytesAvailable socket = int (length (buffered socket))"

definition waitForReadyRead :: "QIODevice \<Rightarrow> bool \<times> QIODevice" where
  "waitForReadyRead socket =
     (case arriving socket of
        [] \<Rightarrow> (False, socket)
      | chunk # later \<Rightarrow>
          (True, socket\<lparr>buffered := buffered socket @ chunk, arriving := later\<rparr>))"

definition read_dev :: "QIODevice \<Rightarrow> int \<Rightarrow> QByteArray \<times> QIODevice" where
  "read_dev socket n =
     (take (nat n) (buffered socket),
      socket\<lparr>buffered := drop (nat n) (buffered socket)\<rparr>)"

subsection \<open>readBytes, readMessage, writeMessage\<close>

text \<open>
  The loop of \<open>readBytes\<close>: \<open>rd\<close> is the local \<open>read\<close>, \<open>bytes\<close> the output array.
  \<open>waitForReadyRead\<close> is called only when nothing is buffered.
\<close>

function readBytes_loop ::
  "QIODevice \<Rightarrow> int \<Rightarrow> int \<Rightarrow> QByteArray \<Rightarrow> bool \<times> QByteArray \<times> QIODevice" where
  "readBytes_loop socket sz rd bytes =
     (if rd < sz then
        (if bytesAvailable socket = 0 \<and> \<not> fst (waitForReadyRead socket)
         then (False, bytes, socket)
         else
           let s1 = (if bytesAvailable socket = 0 then snd (waitForReadyRead socket)
                     else socket);
               avail = min (bytesAvailable s1) (sz - rd)
           in readBytes_loop (snd (read_dev s1 avail)) sz (rd + avail)
                (bytes @ fst (read_dev s1 avail)))
      else (True, bytes, socket))"
  by pat_completeness auto
termination
proof (relation "measure (\<lambda>(socket, sz, rd, bytes). nat (sz - rd) + length (arriving socket))")
  show "wf (measure (\<lambda>(socket, sz, rd, bytes). nat (sz - rd) + length (arriving socket)))"
    by simp
next
  fix socket :: QIODevice and sz rd :: int and bytes :: QByteArray and s1 avail
  assume lt: "rd < sz"
    and go: "\<not> (bytesAvailable socket = 0 \<and> \<not> fst (waitForReadyRead socket))"
    and s1: "s1 = (if bytesAvailable socket = 0 then snd (waitForReadyRead socket) else socket)"
    and av: "avail = min (bytesAvailable s1) (sz - rd)"
  show "((snd (read_dev s1 avail), sz, rd + avail, bytes @ fst (read_dev s1 avail)),
         (socket, sz, rd, bytes))
        \<in> measure (\<lambda>(socket, sz, rd, bytes). nat (sz - rd) + length (arriving socket))"
  proof (cases "bytesAvailable socket = 0")
    case True
    with go obtain chunk later where arr: "arriving socket = chunk # later"
      by (cases "arriving socket") (auto simp: waitForReadyRead_def)
    have "arriving s1 = later"
      using True s1 arr by (simp add: waitForReadyRead_def)
    moreover have "0 \<le> avail"
      using av lt by (simp add: bytesAvailable_def)
    ultimately show ?thesis
      using arr by (simp add: read_dev_def)
  next
    case False
    then have "s1 = socket" and "0 < bytesAvailable socket"
      using s1 by (simp_all add: bytesAvailable_def)
    then have "0 < avail"
      using av lt by simp
    then show ?thesis
      using lt \<open>s1 = socket\<close> by (simp add: read_dev_def)
  qed
qed

declare readBytes_loop.simps [simp del]

definition readBytes :: "QIODevice \<Rightarrow> int \<Rightarrow> bool \<times> QByteArray \<times> QIODevice" where
  "readBytes socket sz = readBytes_loop socket sz 0 []"

text \<open>
  \<open>readMessage(socket, msg)\<close>: \<open>msg\<close> is the caller's array; it is left as it was
  when the length prefix cannot be read.
\<close>

definition readMessage :: "QIODevice \<Rightarrow> QByteArray \<Rightarrow> bool \<times> QByteArray \<times> QIODevice" where
  "readMessage socket msg =
     (case readBytes socket 4 of
        (False, bytes, s1) \<Rightarrow> (False, msg, s1)
      | (True, bytes, s1) \<Rightarrow> readBytes s1 (uint (readUInt32 bytes)))"

definition writeMessage :: "QIODevice \<Rightarrow> QByteArray \<Rightarrow> QIODevice" where
  "writeMessage socket msg =
     socket\<lparr>written := written socket @ writeBytes msg (of_nat (length msg))\<rparr>"

text \<open>All the bytes the reader will ever see on a device, in order.\<close>

definition pending :: "QIODevice \<Rightarrow> QByteArray" where
  "pending socket = buffered socket @ concat (arriving socket)"

subsection \<open>newServer\<close>

text \<open>
  The local endpoints of the host, as far as \<open>newServer\<close> touches them: for each
  name, the time in milliseconds after which a running server accepts a connection
  (\<open>None\<close> when nothing listens there), the names registered in the file system
  (a crashed server leaves its name behind), and the bytes written to each server.
  \<open>waitForConnected(msecs)\<close> succeeds when the connection is accepted within
  \<open>msecs\<close>. \<open>QLocalServer::listen\<close> fails on a name that is still registered.
\<close>

record LocalEndpoints =
  accepting :: "QString \<Rightarrow> nat option"
  registered :: "QString list"
  received :: "(QString \<times> QByteArray) list"

record QLocalServer =
  isListening :: bool
  fullServerName :: QString

definition waitForConnected :: "LocalEndpoints \<Rightarrow> QString \<Rightarrow> nat \<Rightarrow> bool" where
  "waitForConnected os name msecs =
     (case accepting os name of None \<Rightarrow> False | Some delay \<Rightarrow> delay \<le> msecs)"

definition removeServer :: "QString \<Rightarrow> LocalEndpoints \<Rightarrow> LocalEndpoints" where
  "removeServer name os = os\<lparr>registered := removeAll name (registered os)\<rparr>"

definition listen :: "QString \<Rightarrow> QLocalServer \<Rightarrow> LocalEndpoints \<Rightarrow> QLocalServer \<times> LocalEndpoints" where
  "listen name server os =
     (if name \<in> set (registered os) then (server, os)
      else (server\<lparr>isListening := True, fullServerName := name\<rparr>,
            os\<lparr>accepting := (accepting os)(name \<mapsto> 0),
               registered := name # registered os\<rparr>))"

definition newServer :: "QString \<Rightarrow> LocalEndpoints \<Rightarrow> QLocalServer \<times> LocalEndpoints" where
  "newServer name os =
     (let server = \<lparr>isListening = False, fullServerName = []\<rparr> in
      if waitForConnected os name 2000
      then (server, os\<lparr>received := received os @ [(name, writeUInt32 0)]\<rparr>)
      else listen name server (removeServer name os))"

text \<open>What the caller makes of the returned server.\<close>

datatype BindResult = Bound | AlreadyRunning

definition bindOrDetectExisting :: "QString \<Rightarrow> LocalEndpoints \<Rightarrow> BindResult" where
  "bindOrDetectExisting name os =
     (if isListening (fst (newServer name os)) then Bound else AlreadyRunning)"

text \<open>
  The endpoint names: the base name, an underscore and the user, read from the
  environment of the process (\<open>USERNAME\<close> when built for Windows, \<open>USER\<close> otherwise).
\<close>

definition serverName :: "bool \<Rightarrow> (QString \<Rightarrow> QString) \<Rightarrow> QString \<Rightarrow> QString" where
  "serverName q_os_win systemEnvironment name =
     (let envName = (if q_os_win then ''USERNAME'' else ''USER'')
      in name @ ''_'' @ systemEnvironment envName)"

definition clipboardServerName :: "bool \<Rightarrow> (QString \<Rightarrow> QString) \<Rightarrow> QString" where
  "clipboardServerName q_os_win systemEnvironment =
     serverName q_os_win systemEnvironment ''CopyQ_server''"

definition clipboardMonitorServerName :: "bool \<Rightarrow> (QString \<Rightarrow> QString) \<Rightarrow> QString" where
  "clipboardMonitorServerName q_os_win systemEnvironment =
     serverName q_os_win systemEnvironment ''CopyQ_monitor_server''"

subsection \<open>hash\<close>

text \<open>
  \<open>hash(data, formats)\<close>. The two \<open>qHash\<close> overloads of Qt, on byte arrays and on
  strings, are parameters. The loop runs over every requested format; \<open>+\<close> is the
  addition of \<open>uint\<close>, modulo \<open>2^32\<close>.
\<close>

definition hash ::
  "(QByteArray \<Rightarrow> 32 word) \<Rightarrow> (QString \<Rightarrow> 32 word) \<Rightarrow> QMimeData \<Rightarrow> QString list \<Rightarrow> 32 word" where
  "hash qHashBytes qHashString data formats =
     fold (\<lambda>mime h. h XOR (qHashBytes (mime_data data mime) + qHashString mime)) formats 0"

text \<open>
  The fingerprint as the specification words it: only the requested formats that the
  bundle holds are combined, each as the XOR of the two hashes.
\<close>

definition fingerprint_spec ::
  "(QByteArray \<Rightarrow> 32 word) \<Rightarrow> (QString \<Rightarrow> 32 word) \<Rightarrow> QMimeData \<Rightarrow> QString list \<Rightarrow> 32 word" where
  "fingerprint_spec hashBytes hashName bundle formats =
     fold (\<lambda>format acc. acc XOR (hashBytes (mime_data bundle format) XOR hashName format))
          (filter (hasFormat bundle) formats) 0"

section \<open>Clipboard items\<close>

text \<open>
  Modelled from the spec: the class \<open>ClipboardItem\<close> (clipboarditem.cpp) is not among
  the sources. An item wraps one data bundle; a new item holds no format; comparing an
  item with a bundle is the exact comparison of the contents; \<open>dataHash()\<close> is the
  fingerprint of the bundle over a fixed list of formats; \<open>text()\<close> is the
  \<open>text/plain\<close> payload.
\<close>

datatype ClipboardItem = ClipboardItem (item_data: QMimeData)

definition new_ClipboardItem :: ClipboardItem where
  "new_ClipboardItem = ClipboardItem []"

definition item_setData :: "QMimeData \<Rightarrow> ClipboardItem \<Rightarrow> ClipboardItem" where
  "item_setData value item = ClipboardItem value"

definition item_equals :: "ClipboardItem \<Rightarrow> QMimeData \<Rightarrow> bool" where
  "item_equals item data = (item_data item = data)"

definition dataHash ::
  "(QByteArray \<Rightarrow> 32 word) \<Rightarrow> (QString \<Rightarrow> 32 word) \<Rightarrow> QString list \<Rightarrow> ClipboardItem \<Rightarrow> 32 word" where
  "dataHash qHashBytes qHashString formats item =
     hash qHashBytes qHashString (item_data item) formats"

definition item_text :: "ClipboardItem \<Rightarrow> QString" where
  "item_text item = map char_of_byte (mime_data (item_data item) ''text/plain'')"

section \<open>The history (clipboardmodel.cpp)\<close>

record ClipboardModel =
  m_clipboardList :: "ClipboardItem list"
  m_max :: int

definition rowCount :: "ClipboardModel \<Rightarrow> int" where
  "rowCount model = int (length (m_clipboardList model))"

definition maxItems_of :: "ClipboardModel \<Rightarrow> int" where
  "maxItems_of model = m_max model"

text \<open>
  \<open>QList::insert(i, x)\<close> prepends for \<open>i \<le> 0\<close> and appends for \<open>i \<ge> size()\<close>.
  \<open>QList::takeAt(i)\<close> and \<open>operator[]\<close> assert that the index is in range: out
  of range the result is \<open>None\<close>. \<open>QList::move(from, to)\<close> is only reached with the
  rows that \<open>getRowNumber\<close> returns, which are in range.
\<close>

definition QList_insert :: "int \<Rightarrow> 'a \<Rightarrow> 'a list \<Rightarrow> 'a list" where
  "QList_insert i x xs = take (nat i) xs @ x # drop (nat i) xs"

definition QList_takeAt :: "int \<Rightarrow> 'a list \<Rightarrow> 'a list option" where
  "QList_takeAt i xs =
     (if 0 \<le> i \<and> i < int (length xs) then Some (take (nat i) xs @ drop (Suc (nat i)) xs)
      else None)"

definition QList_move :: "nat \<Rightarrow> nat \<Rightarrow> 'a list \<Rightarrow> 'a list" where
  "QList_move from to xs =
     (let x = xs ! from; ys = take from xs @ drop (Suc from) xs
      in take to ys @ x # drop to ys)"

definition at :: "ClipboardModel \<Rightarrow> int \<Rightarrow> ClipboardItem option" where
  "at model row =
     (if 0 \<le> row \<and> row < rowCount model then Some (m_clipboardList model ! nat row)
      else None)"

text \<open>\<open>setData(index, value)\<close> with \<open>index = index(row)\<close>, which is valid for a row in range.\<close>

definition setData :: "int \<Rightarrow> QMimeData \<Rightarrow> ClipboardModel \<Rightarrow> bool \<times> ClipboardModel" where
  "setData row value model =
     (if 0 \<le> row \<and> row < rowCount model
      then (True, model\<lparr>m_clipboardList :=
              (m_clipboardList model)[nat row := item_setData value (m_clipboardList model ! nat row)]\<rparr>)
      else (False, model))"

definition append_item :: "ClipboardModel \<Rightarrow> ClipboardModel" where
  "append_item model = model\<lparr>m_clipboardList := m_clipboardList model @ [new_ClipboardItem]\<rparr>"

fun insertRows_loop :: "nat \<Rightarrow> int \<Rightarrow> ClipboardItem list \<Rightarrow> ClipboardItem list" where
  "insertRows_loop 0 position xs = xs"
| "insertRows_loop (Suc n) position xs =
     insertRows_loop n position (QList_insert position new_ClipboardItem xs)"

definition insertRows :: "int \<Rightarrow> int \<Rightarrow> ClipboardModel \<Rightarrow> bool \<times> ClipboardModel" where
  "insertRows position rows model =
     (True, model\<lparr>m_clipboardList := insertRows_loop (nat rows) position (m_clipboardList model)\<rparr>)"

text \<open>
  The loop of \<open>removeRows\<close> takes the item at \<open>position\<close> once for each row up to \<open>last\<close>.
  Rows and counts are integers without the 32-bit bound of the source's \<open>int\<close>:
  \<open>position + rows - 1\<close> agrees with the source as long as it does not overflow there, as
  in \<open>removeRow(row)\<close>, where \<open>rows\<close> is 1.
\<close>

fun removeRows_loop :: "nat \<Rightarrow> int \<Rightarrow> ClipboardItem list \<Rightarrow> ClipboardItem list option" where
  "removeRows_loop 0 position xs = Some xs"
| "removeRows_loop (Suc n) position xs =
     (case QList_takeAt position xs of
        None \<Rightarrow> None
      | Some ys \<Rightarrow> removeRows_loop n position ys)"

definition removeRows :: "int \<Rightarrow> int \<Rightarrow> ClipboardModel \<Rightarrow> (bool \<times> ClipboardModel) option" where
  "removeRows position rows model =
     (let count = rowCount model in
      if position \<ge> count then Some (False, model)
      else
        let last = min (position + rows - 1) (count - 1) in
        case removeRows_loop (nat (last - position + 1)) position (m_clipboardList model) of
          None \<Rightarrow> None
        | Some xs \<Rightarrow> Some (True, model\<lparr>m_clipboardList := xs\<rparr>))"

definition getRowNumber :: "int \<Rightarrow> bool \<Rightarrow> ClipboardModel \<Rightarrow> int" where
  "getRowNumber row cycle model =
     (let n = rowCount model in
      if n = 0 then -1
      else if row \<ge> n then (if cycle then 0 else n - 1)
      else if row < 0 then (if cycle then n - 1 else 0)
      else row)"

text \<open>
  \<open>QAbstractItemModel::beginMoveRows\<close> within one parent refuses a move whose
  destination lies in the moved range or directly after it.
\<close>

definition beginMoveRows :: "int \<Rightarrow> int \<Rightarrow> int \<Rightarrow> bool" where
  "beginMoveRows sourceFirst sourceLast destinationChild =
     (\<not> (sourceFirst \<le> destinationChild \<and> destinationChild \<le> sourceLast + 1))"

definition move :: "int \<Rightarrow> int \<Rightarrow> ClipboardModel \<Rightarrow> bool \<times> ClipboardModel" where
  "move pos newpos model =
     (let from = getRowNumber pos True model;
          to = getRowNumber newpos True model
      in if from = -1 \<or> to = -1 then (False, model)
         else if \<not> beginMoveRows from from (if from < to then to + 1 else to)
         then (False, model)
         else (True, model\<lparr>m_clipboardList :=
                 QList_move (nat from) (nat to) (m_clipboardList model)\<rparr>))"

text \<open>Moving a row to the front, as \<open>moveToClipboard\<close> and \<open>select\<close> do: \<open>move(i, 0)\<close>.\<close>

definition moveToFront :: "int \<Rightarrow> ClipboardModel \<Rightarrow> bool \<times> ClipboardModel" where
  "moveToFront i model = move i 0 model"

subsection \<open>sortItems\<close>

type_synonym ComparisonItem = "int \<times> ClipboardItem"

text \<open>
  The first loop of \<open>sortItems\<close>: \<open>Inr None\<close> is the early return on a row at or
  beyond the end, \<open>Inl ()\<close> the failed assertion of \<open>QList::operator[]\<close> on a
  negative row.
\<close>

fun collectRows :: "int list \<Rightarrow> ClipboardItem list \<Rightarrow> unit + ComparisonItem list option" where
  "collectRows [] xs = Inr (Some [])"
| "collectRows (row # indexList) xs =
     (if row \<ge> int (length xs) then Inr None
      else if row < 0 then Inl ()
      else case collectRows indexList xs of
             Inr (Some list) \<Rightarrow> Inr (Some ((row, xs ! nat row) # list))
           | other \<Rightarrow> other)"

text \<open>The last loop: the item of \<open>list[i]\<close> goes to row \<open>rows[i]\<close> unless it came from there.\<close>

fun writeBack :: "ComparisonItem list \<Rightarrow> int list \<Rightarrow> ClipboardItem list \<Rightarrow> ClipboardItem list" where
  "writeBack ((row1, item) # list) (row2 # rows) xs =
     writeBack list rows (if row1 \<noteq> row2 then xs[nat row2 := item] else xs)"
| "writeBack list rows xs = xs"

text \<open>
  \<open>qSort\<close> with a comparison function is a parameter; on the rows, which are integers
  under \<open><\<close>, every sorting function gives the same list.
\<close>

definition sortItems ::
  "((ComparisonItem \<Rightarrow> ComparisonItem \<Rightarrow> bool) \<Rightarrow> ComparisonItem list \<Rightarrow> ComparisonItem list)
   \<Rightarrow> int list \<Rightarrow> (ComparisonItem \<Rightarrow> ComparisonItem \<Rightarrow> bool) \<Rightarrow> ClipboardModel
   \<Rightarrow> ClipboardModel option" where
  "sortItems qSort indexList compare model =
     (case collectRows indexList (m_clipboardList model) of
        Inl _ \<Rightarrow> None
      | Inr None \<Rightarrow> Some model
      | Inr (Some list) \<Rightarrow>
          Some (model\<lparr>m_clipboardList :=
                  writeBack (qSort compare list) (sort (map fst list)) (m_clipboardList model)\<rparr>))"

text \<open>
  The comparison functions of clipboardbrowser.cpp: \<open>alphaSort\<close> compares the texts of
  the two items with \<open>QString::localeAwareCompare\<close>, a parameter; \<open>reverseSort\<close>
  compares the rows the items came from.
\<close>

definition alphaSort :: "(QString \<Rightarrow> QString \<Rightarrow> int) \<Rightarrow> ComparisonItem \<Rightarrow> ComparisonItem \<Rightarrow> bool" where
  "alphaSort localeAwareCompare lhs rhs =
     (localeAwareCompare (item_text (snd lhs)) (item_text (snd rhs)) < 0)"

definition reverseSort :: "ComparisonItem \<Rightarrow> ComparisonItem \<Rightarrow> bool" where
  "reverseSort lhs rhs = (fst lhs > fst rhs)"

subsection \<open>findItem\<close>

function findItem_loop :: "(ClipboardItem \<Rightarrow> 32 word) \<Rightarrow> 32 word \<Rightarrow> ClipboardItem list \<Rightarrow> nat \<Rightarrow> int" where
  "findItem_loop itemHash item_hash xs i =
     (if i < length xs
      then (if itemHash (xs ! i) = item_hash then int i
            else findItem_loop itemHash item_hash xs (Suc i))
      else -1)"
  by pat_completeness auto
termination
  by (relation "measure (\<lambda>(itemHash, item_hash, xs, i). length xs - i)") auto

declare findItem_loop.simps [simp del]

definition findItem :: "(ClipboardItem \<Rightarrow> 32 word) \<Rightarrow> 32 word \<Rightarrow> ClipboardModel \<Rightarrow> int" where
  "findItem itemHash item_hash model = findItem_loop itemHash item_hash (m_clipboardList model) 0"

subsection \<open>Saving and loading\<close>

text \<open>
  A \<open>QDataStream\<close> is the list of its bytes; reading consumes from the front. The
  serializer of a single item (clipboarditem.cpp) is not among the sources: the writer
  \<open>put_item\<close> and the reader \<open>get_item\<close> are parameters. The count that the reader
  computes, \<open>qMin(length, maxItems()) - rowCount()\<close>, is an integer without the 32-bit
  bound: it agrees with the source for a stored length that is not negative, which is
  what the writer stores.
\<close>

definition writeInt32 :: "int \<Rightarrow> QByteArray" where
  "writeInt32 i = writeUInt32 (of_int i)"

definition readInt32 :: "QByteArray \<Rightarrow> int \<times> QByteArray" where
  "readInt32 stream =
     (if length stream < 4 then (0, []) else (sint (readUInt32 stream), drop 4 stream))"

function write_loop ::
  "(ClipboardItem \<Rightarrow> QByteArray) \<Rightarrow> ClipboardModel \<Rightarrow> int \<Rightarrow> int \<Rightarrow> QByteArray \<Rightarrow> QByteArray option" where
  "write_loop put_item model i len stream =
     (if i < len
      then (case at model i of
              None \<Rightarrow> None
            | Some item \<Rightarrow> write_loop put_item model (i + 1) len (stream @ put_item item))
      else Some stream)"
  by pat_completeness auto
termination
  by (relation "measure (\<lambda>(put_item, model, i, len, stream). nat (len - i))") auto

declare write_loop.simps [simp del]

definition write_model ::
  "(ClipboardItem \<Rightarrow> QByteArray) \<Rightarrow> QByteArray \<Rightarrow> ClipboardModel \<Rightarrow> QByteArray option" where
  "write_model put_item stream model =
     (let len = rowCount model
      in write_loop put_item model 0 len (stream @ writeInt32 len))"

fun read_loop ::
  "(QByteArray \<Rightarrow> ClipboardItem \<times> QByteArray) \<Rightarrow> nat \<Rightarrow> QByteArray \<Rightarrow> ClipboardModel
   \<Rightarrow> QByteArray \<times> ClipboardModel" where
  "read_loop get_item 0 stream model = (stream, model)"
| "read_loop get_item (Suc n) stream model =
     (let model1 = append_item model;
          (item, stream1) = get_item stream
      in read_loop get_item n stream1
           (model1\<lparr>m_clipboardList := butlast (m_clipboardList model1) @ [item]\<rparr>))"

definition read_model ::
  "(QByteArray \<Rightarrow> ClipboardItem \<times> QByteArray) \<Rightarrow> QByteArray \<Rightarrow> ClipboardModel
   \<Rightarrow> QByteArray \<times> ClipboardModel" where
  "read_model get_item stream model =
     (let (len0, stream1) = readInt32 stream;
          len = min len0 (maxItems_of model) - rowCount model
      in read_loop get_item (nat len) stream1 model)"

section \<open>Adding to the history (clipboardbrowser.cpp)\<close>

text \<open>
  A command, as far as \<open>add\<close> reads it. \<open>matches c data\<close> stands for the test
  \<open>c.re.indexIn(text) != -1 && (windowTitle.isNull() || c.wndre.indexIn(windowTitle) != -1)\<close>,
  whose text and window title are both taken from \<open>data\<close>.
\<close>

record Command =
  automatic :: bool
  ignore :: bool
  tab :: QString
  outputTab :: QString
  input :: QString
  matches :: "QMimeData \<Rightarrow> bool"

record ClipboardBrowserShared =
  maxItems :: int
  commands :: "Command list"

datatype Signal = requestActionDialog QMimeData Command | addToTab QMimeData QString

text \<open>
  The browser: its model \<open>m\<close>, the shared settings, the name of its tab and the
  signals emitted so far. The view's hidden rows, the save timer and the scroll offset
  are left out: \<open>add\<close> does not read them.
\<close>

record ClipboardBrowser =
  m :: ClipboardModel
  m_sharedData :: ClipboardBrowserShared
  m_id :: QString
  emitted :: "Signal list"

definition hasText :: "QMimeData \<Rightarrow> bool" where
  "hasText data = (hasFormat data ''text/plain'' \<or> hasFormat data ''text/uri-list'')"

text \<open>
  The loop over the commands: the signals it emits, and whether a matching command
  with \<open>ignore\<close> ended it (the \<open>return false\<close> inside the loop).
\<close>

fun run_commands :: "QString \<Rightarrow> QMimeData \<Rightarrow> Command list \<Rightarrow> Signal list \<times> bool" where
  "run_commands tab_id data [] = ([], False)"
| "run_commands tab_id data (c # cs) =
     (if (automatic c \<or> ignore c \<or> tab c \<noteq> []) \<and> matches c data then
        let cmd = (if outputTab c = [] then c\<lparr>outputTab := tab_id\<rparr> else c);
            s1 = (if automatic c \<and> (input cmd = [] \<or> hasFormat data (input cmd))
                  then [requestActionDialog data cmd] else []);
            s2 = (if tab c \<noteq> [] then [addToTab data (tab c)] else [])
        in if ignore c then (s1 @ s2, True)
           else (case run_commands tab_id data cs of (s, ignored) \<Rightarrow> (s1 @ s2 @ s, ignored))
      else run_commands tab_id data cs)"

definition add :: "QMimeData \<Rightarrow> bool \<Rightarrow> int \<Rightarrow> ClipboardBrowser \<Rightarrow> (bool \<times> ClipboardBrowser) option" where
  "add data force row browser =
     (if \<not> force \<and> rowCount (m browser) > 0
         \<and> (case at (m browser) 0 of None \<Rightarrow> False | Some item \<Rightarrow> item_equals item data)
      then Some (False, browser)
      else
        let (signals, ignored) =
              (if \<not> force \<and> hasText data
               then run_commands (m_id browser) data (commands (m_sharedData browser))
               else ([], False));
            browser1 = browser\<lparr>emitted := emitted browser @ signals\<rparr>
        in if ignored then Some (False, browser1)
           else
             let newRow = max 0 (min row (rowCount (m browser1)));
                 model1 = snd (insertRows newRow 1 (m browser1));
                 model2 = snd (setData newRow data model1)
             in if rowCount model2 > maxItems (m_sharedData browser1)
                then (case removeRows (rowCount model2 - 1) 1 model2 of
                        None \<Rightarrow> None
                      | Some (removed, model3) \<Rightarrow> Some (True, browser1\<lparr>m := model3\<rparr>))
                else Some (True, browser1\<lparr>m := model2\<rparr>))"

text \<open>\<open>add(data, force)\<close> with the default row 0.\<close>

definition insertAtFront :: "QMimeData \<Rightarrow> bool \<Rightarrow> ClipboardBrowser \<Rightarrow> (bool \<times> ClipboardBrowser) option" where
  "insertAtFront data force browser = add data force 0 browser"

text \<open>A sequence of calls: the browser after each call, or \<open>None\<close> when a call fails.\<close>

fun insertAtFront_calls ::
  "(QMimeData \<times> bool) list \<Rightarrow> ClipboardBrowser \<Rightarrow> ClipboardBrowser list option" where
  "insertAtFront_calls [] browser = Some []"
| "insertAtFront_calls ((data, force) # calls) browser =
     (case insertAtFront data force browser of
        None \<Rightarrow> None
      | Some (inserted, browser1) \<Rightarrow>
          (case insertAtFront_calls calls browser1 of
             None \<Rightarrow> None
           | Some later \<Rightarrow> Some (browser1 # later)))"

section \<open>Functions of Qt 4 that instantiate the parameters\<close>

subsection \<open>qHash\<close>

text \<open>
  The hash function of Qt 4 (\<open>qhash.cpp\<close>), the same loop for the bytes of a
  \<open>QByteArray\<close> and the code units of a \<open>QString\<close>; it instantiates the parameters
  of \<open>hash\<close> in the examples.
\<close>

definition qt4_hash_step :: "32 word \<Rightarrow> 32 word \<Rightarrow> 32 word" where
  "qt4_hash_step h c =
     (let h1 = push_bit 4 h + c;
          h2 = h1 XOR drop_bit 23 (h1 AND 0xf0000000)
      in h2 AND 0x0fffffff)"

definition qt4_qHash_bytes :: "QByteArray \<Rightarrow> 32 word" where
  "qt4_qHash_bytes key = fold (\<lambda>b h. qt4_hash_step h (ucast b)) key 0"

definition qt4_qHash_string :: "QString \<Rightarrow> 32 word" where
  "qt4_qHash_string key = fold (\<lambda>c h. qt4_hash_step h (of_char c)) key 0"

subsection \<open>qSort\<close>

text \<open>
  The algorithm of \<open>qSort\<close> in Qt 4 (\<open>qSortHelper\<close> of qalgorithms.h), on the list
  between \<open>start\<close> and \<open>end\<close>: indices count from \<open>start\<close>, \<open>e\<close> is the index of
  the last element, where the pivot is parked during the partition. It instantiates the
  parameter \<open>qSort\<close> of \<open>sortItems\<close> in the examples.
\<close>

definition qSwap :: "nat \<Rightarrow> nat \<Rightarrow> 'a list \<Rightarrow> 'a list" where
  "qSwap i j xs = xs[i := xs ! j, j := xs ! i]"

function scan_low :: "('a \<Rightarrow> 'a \<Rightarrow> bool) \<Rightarrow> 'a list \<Rightarrow> nat \<Rightarrow> nat \<Rightarrow> nat \<Rightarrow> nat" where
  "scan_low lt xs e low high =
     (if low < high \<and> lt (xs ! low) (xs ! e)
      then scan_low lt xs e (Suc low) high
      else low)"
  by pat_completeness auto
termination
  by (relation "measure (\<lambda>(lt, xs, e, low, high). high - low)") auto

function scan_high :: "('a \<Rightarrow> 'a \<Rightarrow> bool) \<Rightarrow> 'a list \<Rightarrow> nat \<Rightarrow> nat \<Rightarrow> nat \<Rightarrow> nat" where
  "scan_high lt xs e low high =
     (if high > low \<and> lt (xs ! e) (xs ! high)
      then scan_high lt xs e low (high - 1)
      else high)"
  by pat_completeness auto
termination
  by (relation "measure (\<lambda>(lt, xs, e, low, high). high)") auto

declare scan_low.simps [simp del]

declare scan_high.simps [simp del]

text \<open>The bounds that the termination of the partition and of the sort rest on.\<close>

lemma scan_low_bounds:
  "low \<le> scan_low lt xs e low high \<and> scan_low lt xs e low high \<le> max low high"
  by (induction lt xs e low high rule: scan_low.induct)
    (subst (1 2) scan_low.simps, auto)

lemma scan_high_bounds:
  "scan_high lt xs e low high \<le> high"
  by (induction lt xs e low high rule: scan_high.induct)
    (subst scan_high.simps, auto)

function partition_loop ::
  "('a \<Rightarrow> 'a \<Rightarrow> bool) \<Rightarrow> 'a list \<Rightarrow> nat \<Rightarrow> nat \<Rightarrow> nat \<Rightarrow> 'a list \<times> nat" where
  "partition_loop lt xs e low high =
     (if low < high then
        let low1 = scan_low lt xs e low high;
            high1 = scan_high lt xs e low1 high
        in if low1 < high1
           then partition_loop lt (qSwap low1 high1 xs) e (Suc low1) (high1 - 1)
           else (xs, low1)
      else (xs, low))"
  by pat_completeness auto
termination
proof (relation "measure (\<lambda>(lt, xs, e, low, high). high - low)")
  show "wf (measure (\<lambda>(lt, xs, e, low, high). high - low))" by simp
next
  fix lt :: "'a \<Rightarrow> 'a \<Rightarrow> bool" and xs :: "'a list" and e low high low1 high1 :: nat
  assume "low < high" and l: "low1 = scan_low lt xs e low high"
    and h: "high1 = scan_high lt xs e low1 high" and "low1 < high1"
  moreover have "low \<le> low1" using l scan_low_bounds [of low lt xs e high] by simp
  moreover have "high1 \<le> high" using h scan_high_bounds [of lt xs e low1 high] by simp
  ultimately show "((lt, qSwap low1 high1 xs, e, Suc low1, high1 - 1),
          (lt, xs, e, low, high))
         \<in> measure (\<lambda>(lt, xs, e, low, high). high - low)"
    by simp
qed

declare partition_loop.simps [simp del]

lemma length_qSwap: "length (qSwap i j xs) = length xs"
  by (simp add: qSwap_def)

lemma partition_loop_bounds:
  "length (fst (partition_loop lt xs e low high)) = length xs
   \<and> snd (partition_loop lt xs e low high) \<le> max low high"
proof (induction lt xs e low high rule: partition_loop.induct)
  case (1 lt xs e low high)
  show ?case
  proof (cases "low < high")
    case False
    then show ?thesis by (subst (1 2) partition_loop.simps) simp
  next
    case True
    define low1 where "low1 = scan_low lt xs e low high"
    define high1 where "high1 = scan_high lt xs e low1 high"
    have b1: "low1 \<le> high" using scan_low_bounds [of low lt xs e high] True
      by (simp add: low1_def)
    have b2: "high1 \<le> high" using scan_high_bounds [of lt xs e low1 high]
      by (simp add: high1_def)
    show ?thesis
    proof (cases "low1 < high1")
      case False
      with True b1 show ?thesis
        by (subst (1 2) partition_loop.simps) (simp add: Let_def low1_def high1_def)
    next
      case lt: True
      have eq: "partition_loop lt xs e low high
            = partition_loop lt (qSwap low1 high1 xs) e (Suc low1) (high1 - 1)"
        using True lt by (subst partition_loop.simps) (simp add: Let_def low1_def high1_def)
      from "1.IH" [OF True low1_def high1_def lt] lt b2 True show ?thesis
        unfolding eq by (auto simp: length_qSwap)
    qed
  qed
qed

lemma partition_split_bounds:
  assumes "2 \<le> length xs4" and "e = length xs4 - 1"
    and "part = partition_loop lt xs4 e 0 (e - 1)" and "xs5 = fst part" and "low = snd part"
    and "low1 = (if lt (xs5 ! low) (xs5 ! e) then Suc low else low)"
    and "xs6 = qSwap e low1 xs5"
  shows "length xs6 = length xs4 \<and> low1 < length xs4"
proof -
  have "low \<le> e - 1" and "length xs5 = length xs4"
    using partition_loop_bounds [of lt xs4 e 0 "e - 1"] by (simp_all add: assms(3,4,5))
  moreover have "1 \<le> e" using assms(1,2) by simp
  ultimately show ?thesis
    using assms(2) by (auto simp: length_qSwap assms(6,7))
qed

function qSortHelper :: "('a \<Rightarrow> 'a \<Rightarrow> bool) \<Rightarrow> 'a list \<Rightarrow> 'a list" where
  "qSortHelper lt xs =
     (let span = length xs in
      if span < 2 then xs
      else
        let e = span - 1;
            pivot = span div 2;
            xs1 = (if lt (xs ! e) (xs ! 0) then qSwap e 0 xs else xs)
        in if span = 2 then xs1
           else
             let xs2 = (if lt (xs1 ! pivot) (xs1 ! 0) then qSwap pivot 0 xs1 else xs1);
                 xs3 = (if lt (xs2 ! e) (xs2 ! pivot) then qSwap e pivot xs2 else xs2)
             in if span = 3 then xs3
                else
                  let xs4 = qSwap pivot e xs3;
                      part = partition_loop lt xs4 e 0 (e - 1);
                      xs5 = fst part;
                      low = snd part;
                      low1 = (if lt (xs5 ! low) (xs5 ! e) then Suc low else low);
                      xs6 = qSwap e low1 xs5
                  in qSortHelper lt (take low1 xs6) @ xs6 ! low1
                       # qSortHelper lt (drop (Suc low1) xs6))"
  by pat_completeness auto
termination
proof (relation "measure (\<lambda>(lt, xs). length xs)")
  show "wf (measure (\<lambda>(lt :: 'a \<Rightarrow> 'a \<Rightarrow> bool, xs :: 'a list). length xs))"
    by simp
next
  fix lt :: "'a \<Rightarrow> 'a \<Rightarrow> bool" and xs xs1 xs2 xs3 xs4 xs5 xs6 :: "'a list"
    and span e pivot low low1 :: nat and part
  assume span: "span = length xs" and big: "\<not> span < 2" and e: "e = span - 1"
    and "pivot = span div 2"
    and xs1: "xs1 = (if lt (xs ! e) (xs ! 0) then qSwap e 0 xs else xs)"
    and xs2: "xs2 = (if lt (xs1 ! pivot) (xs1 ! 0) then qSwap pivot 0 xs1 else xs1)"
    and xs3: "xs3 = (if lt (xs2 ! e) (xs2 ! pivot) then qSwap e pivot xs2 else xs2)"
    and xs4: "xs4 = qSwap pivot e xs3"
    and part: "part = partition_loop lt xs4 e 0 (e - 1)"
    and xs5: "xs5 = fst part" and low: "low = snd part"
    and low1: "low1 = (if lt (xs5 ! low) (xs5 ! e) then Suc low else low)"
    and xs6: "xs6 = qSwap e low1 xs5"
  have "length xs1 = length xs" by (simp add: xs1 length_qSwap)
  then have "length xs2 = length xs" by (simp add: xs2 length_qSwap)
  then have "length xs3 = length xs" by (simp add: xs3 length_qSwap)
  then have l4: "length xs4 = length xs" by (simp add: xs4 length_qSwap)
  have "2 \<le> length xs4" using big by (simp add: l4 span)
  moreover have "e = length xs4 - 1" by (simp add: e l4 span)
  ultimately have b: "length xs6 = length xs4 \<and> low1 < length xs4"
    using part xs5 low low1 xs6 by (rule partition_split_bounds)
  from b show "((lt, take low1 xs6), lt, xs) \<in> measure (\<lambda>(lt, xs). length xs)"
    by (simp add: l4)
  from b show "((lt, drop (Suc low1) xs6), lt, xs) \<in> measure (\<lambda>(lt, xs). length xs)"
    by (auto simp: l4)
qed

declare qSortHelper.simps [simp del]

definition qt4_qSort :: "('a \<Rightarrow> 'a \<Rightarrow> bool) \<Rightarrow> 'a list \<Rightarrow> 'a list" where
  "qt4_qSort lt xs = qSortHelper lt xs"

subsection \<open>localeAwareCompare\<close>

text \<open>The comparison of two strings by their code units, as in the C locale.\<close>

fun compare_code_units :: "QString \<Rightarrow> QString \<Rightarrow> int" where
  "compare_code_units [] [] = 0"
| "compare_code_units [] (b # bs) = - 1"
| "compare_code_units (a # as) [] = 1"
| "compare_code_units (a # as) (b # bs) =
     (if (of_char a :: nat) < of_char b then - 1
      else if (of_char b :: nat) < of_char a then 1
      else compare_code_units as bs)"

section \<open>Auxiliary notions and examples\<close>

text \<open>A list cut back by its last element when it is longer than the capacity.\<close>

definition trimmed :: "int \<Rightarrow> ClipboardItem list \<Rightarrow> ClipboardItem list" where
  "trimmed cap xs = (if int (length xs) > cap then butlast xs else xs)"

text \<open>The environment of a process of the user \<open>alice\<close>.\<close>

definition alice_environment :: "QString \<Rightarrow> QString" where
  "alice_environment envName = (if envName = ''USER'' then ''alice'' else [])"

text \<open>Four bundles of one text format each, with the payloads \<open>A\<close>, \<open>B\<close>, \<open>C\<close>, \<open>D\<close>.\<close>

definition bundle_A :: QMimeData where "bundle_A = [(''text/plain'', [65])]"
definition bundle_B :: QMimeData where "bundle_B = [(''text/plain'', [66])]"
definition bundle_C :: QMimeData where "bundle_C = [(''text/plain'', [67])]"
definition bundle_D :: QMimeData where "bundle_D = [(''text/plain'', [68])]"

definition example_model :: "QMimeData list \<Rightarrow> int \<Rightarrow> ClipboardModel" where
  "example_model bundles cap = \<lparr>m_clipboardList = map ClipboardItem bundles, m_max = cap\<rparr>"

definition example_browser :: "QMimeData list \<Rightarrow> int \<Rightarrow> ClipboardBrowser" where
  "example_browser bundles cap =
     \<lparr>m = example_model bundles cap, m_sharedData = \<lparr>maxItems = cap, commands = []\<rparr>,
      m_id = ''clipboard'', emitted = []\<rparr>"

text \<open>
  Modelled from the spec: the serializer of one item (clipboarditem.cpp) is not among the
  sources. The layout is the one of the persistence format: the number of formats, then
  for each format its name, the length of its payload and the payload; the name is
  written as its length and its characters, one byte each, and every number as a
  \<open>quint32\<close>. It instantiates \<open>put_item\<close> and \<open>get_item\<close> in the examples.
\<close>

fun put_formats :: "QMimeData \<Rightarrow> QByteArray" where
  "put_formats [] = []"
| "put_formats ((name, payload) # others) =
     writeUInt32 (of_nat (length name)) @ map byte_of_char name
       @ writeUInt32 (of_nat (length payload)) @ payload @ put_formats others"

definition example_put_item :: "ClipboardItem \<Rightarrow> QByteArray" where
  "example_put_item item =
     writeUInt32 (of_nat (length (item_data item))) @ put_formats (item_data item)"

fun get_formats :: "nat \<Rightarrow> QByteArray \<Rightarrow> QMimeData \<times> QByteArray" where
  "get_formats 0 stream = ([], stream)"
| "get_formats (Suc n) stream =
     (let name_len = unat (readUInt32 stream);
          stream1 = drop 4 stream;
          name = map char_of_byte (take name_len stream1);
          stream2 = drop name_len stream1;
          payload_len = unat (readUInt32 stream2);
          stream3 = drop 4 stream2;
          payload = take payload_len stream3;
          (others, stream4) = get_formats n (drop payload_len stream3)
      in ((name, payload) # others, stream4))"

definition example_get_item :: "QByteArray \<Rightarrow> ClipboardItem \<times> QByteArray" where
  "example_get_item stream =
     (let (formats, stream1) = get_formats (unat (readUInt32 stream)) (drop 4 stream)
      in (ClipboardItem formats, stream1))"

text \<open>A bundle with the text of \<open>bundle_B\<close> and a second format.\<close>

definition bundle_B_html :: QMimeData where
  "bundle_B_html = [(''text/plain'', [66]), (''text/html'', [60, 98, 62, 66])]"

text \<open>The fingerprint of an item over the text format, with the hash function of Qt 4.\<close>

definition example_dataHash :: "ClipboardItem \<Rightarrow> 32 word" where
  "example_dataHash = dataHash qt4_qHash_bytes qt4_qHash_string [''text/plain'']"

section \<open>Framing\<close>

lemma readUInt32_writeUInt32: "readUInt32 (writeUInt32 w) = w"
  unfolding readUInt32_def writeUInt32_def
  apply simp
  apply (rule bit_word_eqI)
  apply (auto simp add: bit_simps)
  subgoal for n by (cases "n < 16") simp_all
  subgoal for n by (cases "n < 24"; cases "n < 16") simp_all
  done

lemma length_writeUInt32: "length (writeUInt32 w) = 4"
  by (simp add: writeUInt32_def)

lemma readBytes_loop_enough:
  "rd \<le> sz \<Longrightarrow> sz - rd \<le> int (length (pending socket)) \<Longrightarrow>
   \<exists>s'. readBytes_loop socket sz rd bytes
          = (True, bytes @ take (nat (sz - rd)) (pending socket), s')
        \<and> pending s' = drop (nat (sz - rd)) (pending socket)"
proof (induction socket sz rd bytes rule: readBytes_loop.induct)
  case (1 socket sz rd bytes)
  show ?case
  proof (cases "rd < sz")
    case False
    with "1.prems" have "sz - rd = 0" by simp
    with False show ?thesis by (subst readBytes_loop.simps) simp
  next
    case lt: True
    define s1 where "s1 = (if bytesAvailable socket = 0 then snd (waitForReadyRead socket)
                            else socket)"
    define avail where "avail = min (bytesAvailable s1) (sz - rd)"
    have go: "\<not> (bytesAvailable socket = 0 \<and> \<not> fst (waitForReadyRead socket))"
    proof
      assume stop: "bytesAvailable socket = 0 \<and> \<not> fst (waitForReadyRead socket)"
      then have "buffered socket = []" and "arriving socket = []"
        by (auto simp: bytesAvailable_def waitForReadyRead_def split: list.splits)
      then have "pending socket = []" by (simp add: pending_def)
      with "1.prems" lt show False by simp
    qed
    have p1: "pending s1 = pending socket"
      by (auto simp: s1_def pending_def waitForReadyRead_def split: list.splits)
    have av0: "0 \<le> avail" and avle: "avail \<le> sz - rd"
      and avb: "avail \<le> int (length (buffered s1))"
      using lt by (simp_all add: avail_def bytesAvailable_def)
    have tk: "fst (read_dev s1 avail) = take (nat avail) (pending socket)"
      using avb p1 [symmetric] by (simp add: read_dev_def pending_def)
    have dr: "pending (snd (read_dev s1 avail)) = drop (nat avail) (pending socket)"
      using avb p1 [symmetric] by (simp add: read_dev_def pending_def)
    have "rd + avail \<le> sz" using avle by simp
    moreover have "sz - (rd + avail) \<le> int (length (pending (snd (read_dev s1 avail))))"
      using "1.prems" av0 by (simp add: dr)
    ultimately obtain s' where
      run: "readBytes_loop (snd (read_dev s1 avail)) sz (rd + avail)
              (bytes @ fst (read_dev s1 avail))
            = (True, (bytes @ fst (read_dev s1 avail))
                 @ take (nat (sz - (rd + avail))) (pending (snd (read_dev s1 avail))), s')"
      and rest: "pending s' = drop (nat (sz - (rd + avail))) (pending (snd (read_dev s1 avail)))"
      using "1.IH" [OF lt go s1_def avail_def] by blast
    have split: "nat (sz - rd) = nat avail + nat (sz - (rd + avail))"
      using av0 avle by simp
    have "readBytes_loop socket sz rd bytes
          = readBytes_loop (snd (read_dev s1 avail)) sz (rd + avail)
              (bytes @ fst (read_dev s1 avail))"
      apply (subst readBytes_loop.simps)
      using lt go by (auto simp: s1_def avail_def Let_def)
    note step = this
    have tk2: "take (nat (sz - rd)) (pending socket)
          = take (nat avail) (pending socket)
            @ take (nat (sz - (rd + avail))) (drop (nat avail) (pending socket))"
      by (subst split) (rule take_add)
    have e: "(bytes @ fst (read_dev s1 avail))
               @ take (nat (sz - (rd + avail))) (pending (snd (read_dev s1 avail)))
             = bytes @ take (nat (sz - rd)) (pending socket)"
      unfolding tk dr tk2 by simp
    have "readBytes_loop socket sz rd bytes
          = (True, bytes @ take (nat (sz - rd)) (pending socket), s')"
      by (simp only: step run e)
    moreover have "pending s' = drop (nat (sz - rd)) (pending socket)"
      by (subst split) (simp only: rest dr drop_drop add.commute)
    ultimately show ?thesis by blast
  qed
qed

lemma readBytes_enough:
  assumes "0 \<le> sz" and "sz \<le> int (length (pending socket))"
  shows "\<exists>s'. readBytes socket sz = (True, take (nat sz) (pending socket), s')
             \<and> pending s' = drop (nat sz) (pending socket)"
  using readBytes_loop_enough [of 0 sz socket "[]"] assms by (simp add: readBytes_def)

lemma readMessage_frame:
  assumes "pending socket = writeUInt32 len @ body @ rest" and "length body = unat len"
  shows "\<exists>s'. readMessage socket msg = (True, body, s') \<and> pending s' = rest"
proof -
  obtain s1 where h: "readBytes socket 4 = (True, take 4 (pending socket), s1)"
    and p1: "pending s1 = drop 4 (pending socket)"
    using readBytes_enough [of 4 socket] assms(1) by (auto simp: length_writeUInt32)
  have hdr: "take 4 (pending socket) = writeUInt32 len"
    and bdy: "pending s1 = body @ rest"
    using assms(1) p1 by (simp_all add: length_writeUInt32)
  have ul: "uint len = int (length body)"
    by (simp only: assms(2) uint_nat)
  have sz: "nat (uint len) = length body"
    by (simp only: ul nat_int)
  have "0 \<le> uint len"
    by (simp only: ul of_nat_0_le_iff)
  moreover have "uint len \<le> int (length (pending s1))"
    by (simp only: ul bdy length_append of_nat_add)
  ultimately obtain s2 where
    b: "readBytes s1 (uint len) = (True, take (nat (uint len)) (pending s1), s2)"
    and p2: "pending s2 = drop (nat (uint len)) (pending s1)"
    using readBytes_enough [of "uint len" s1] by blast
  have b': "readBytes s1 (uint len) = (True, body, s2)"
    by (simp only: b sz bdy) simp
  have "readMessage socket msg = (True, body, s2)"
    by (simp add: readMessage_def h hdr readUInt32_writeUInt32 b')
  moreover have "pending s2 = rest"
    by (simp only: p2 sz bdy) simp
  ultimately show ?thesis by blast
qed

lemma written_writeMessage:
  "length msg < 2 ^ 32 \<Longrightarrow>
   written (writeMessage socket msg)
     = written socket @ writeUInt32 (of_nat (length msg)) @ msg"
  by (simp add: writeMessage_def writeBytes_def unat_of_nat)

text \<open>
  C3. Framing round trip: \<open>writeMessage\<close> puts on the channel the length of the
  payload as four bytes, most significant first, and then the payload. For every byte
  sequence \<open>b\<close> of length 0 to 65536, a reader whose device receives exactly the bytes
  \<open>writeMessage\<close> put on a fresh channel, in whatever chunks they arrive, reads \<open>b\<close>
  back with success and has nothing left over; the frame of the empty payload is the
  four bytes of the length 0, with no body.
\<close>

theorem framing_round_trip:
  assumes "length b \<le> 65536"
    and "written writer = []"
    and "pending reader = written (writeMessage writer b)"
  shows "written (writeMessage writer b) = writeUInt32 (of_nat (length b)) @ b
       \<and> (\<exists>s'. readMessage reader msg = (True, b, s') \<and> pending s' = [])
       \<and> written (writeMessage writer []) = [0, 0, 0, 0]"
proof -
  have len: "length b < 2 ^ 32" using assms(1) by simp
  have frame: "written (writeMessage writer b) = writeUInt32 (of_nat (length b)) @ b"
    using assms(2) written_writeMessage [OF len, of writer] by simp
  then have "pending reader = writeUInt32 (of_nat (length b)) @ b @ []"
    using assms(3) by simp
  moreover have "length b = unat (of_nat (length b) :: 32 word)"
    using len by (simp add: unat_of_nat)
  ultimately have "\<exists>s'. readMessage reader msg = (True, b, s') \<and> pending s' = []"
    by (rule readMessage_frame)
  moreover have "written (writeMessage writer []) = [0, 0, 0, 0]"
    using assms(2) by (simp add: writeMessage_def writeBytes_def writeUInt32_def)
  ultimately show ?thesis using frame by blast
qed

text \<open>
  Instances: the frame of the payload \<open>[1, 2, 3]\<close> arriving in three chunks, and the
  frame of the empty payload.
\<close>

theorem framing_round_trip_witness:
  "length [1, 2, 3 :: byte] \<le> 65536
   \<and> written \<lparr>buffered = [], arriving = [], written = []\<rparr> = []
   \<and> pending \<lparr>buffered = [0, 0], arriving = [[0, 3, 1], [2, 3]], written = []\<rparr>
       = written (writeMessage \<lparr>buffered = [], arriving = [], written = []\<rparr> [1, 2, 3])
   \<and> (\<exists>s'. readMessage \<lparr>buffered = [0, 0], arriving = [[0, 3, 1], [2, 3]], written = []\<rparr> [9]
              = (True, [1, 2, 3], s') \<and> pending s' = [])
   \<and> written (writeMessage \<lparr>buffered = [], arriving = [], written = []\<rparr> []) = [0, 0, 0, 0]
   \<and> (\<exists>s'. readMessage \<lparr>buffered = [0, 0, 0, 0], arriving = [], written = []\<rparr> [9]
              = (True, [], s') \<and> pending s' = [])"
proof -
  let ?w = "\<lparr>buffered = [], arriving = [], written = []\<rparr>"
  let ?r = "\<lparr>buffered = [0, 0], arriving = [[0, 3, 1], [2, 3]], written = []\<rparr>"
  have h1: "length [1, 2, 3 :: byte] \<le> 65536" by simp
  have h2: "written ?w = []" by simp
  have h3: "pending ?r = written (writeMessage ?w [1, 2, 3])"
    by (simp add: pending_def writeMessage_def writeBytes_def writeUInt32_def)
  have e1: "length ([] :: QByteArray) \<le> 65536" by simp
  have e3: "pending \<lparr>buffered = [0, 0, 0, 0], arriving = [], written = []\<rparr>
      = written (writeMessage ?w [])"
    by (simp add: pending_def writeMessage_def writeBytes_def writeUInt32_def)
  show ?thesis
    using framing_round_trip [OF h1 h2 h3, of "[9]"] framing_round_trip [OF e1 h2 e3, of "[9]"]
      h1 h2 h3
    by blast
qed

section \<open>Fingerprint\<close>

lemma fold_xor_acc:
  "fold (\<lambda>x (h :: 32 word). h XOR f x) xs a = a XOR foldr (\<lambda>x h. f x XOR h) xs 0"
  by (induction xs arbitrary: a) (simp_all add: xor.assoc)

text \<open>
  C5, as amended. The fingerprint is the XOR, over every requested format whether the
  bundle holds it or not, of the sum modulo \<open>2^32\<close> of the hash of the payload and the
  hash of the format name; a format the bundle does not hold has the empty payload and
  contributes the hash of the empty byte array plus the hash of its name.
\<close>

theorem hash_xor_of_sums:
  "hash qHashBytes qHashString data formats
   = foldr (\<lambda>mime h.
        ((if hasFormat data mime then qHashBytes (mime_data data mime) else qHashBytes [])
           + qHashString mime) XOR h) formats 0"
proof -
  have "\<And>mime. mime_data data mime
          = (if hasFormat data mime then mime_data data mime else [])"
    by (simp add: mime_data_def hasFormat_def)
  then have "\<And>mime. qHashBytes (mime_data data mime)
          = (if hasFormat data mime then qHashBytes (mime_data data mime) else qHashBytes [])"
    by (metis (full_types))
  then show ?thesis
    unfolding hash_def fold_xor_acc by simp
qed

text \<open>
  C5 as stated fails, with the hash function of Qt 4: on the empty bundle the requested
  format \<open>text/plain\<close> still contributes the hash of its name, and on a bundle that
  holds the format the sum of the two hashes differs from their XOR.
\<close>

theorem hash_fingerprint_spec_counterexample:
  "hash qt4_qHash_bytes qt4_qHash_string [] [''text/plain'']
     \<noteq> fingerprint_spec qt4_qHash_bytes qt4_qHash_string [] [''text/plain'']
   \<and> hash qt4_qHash_bytes qt4_qHash_string [(''text/plain'', [66])] [''text/plain'']
     \<noteq> fingerprint_spec qt4_qHash_bytes qt4_qHash_string [(''text/plain'', [66])] [''text/plain'']"
  by code_simp

section \<open>Server endpoint\<close>

text \<open>
  C8. \<open>newServer\<close> probes, then binds. When a server accepts the connection to the
  name within 2000 ms, the four bytes of a zero length prefix are written to it, with
  no body (the frame \<open>writeMessage\<close> makes of the empty payload), the returned server
  does not listen and nothing is registered: the caller sees \<open>AlreadyRunning\<close>. When
  nothing accepts within 2000 ms, every registration of the name is removed, and the
  returned server listens on the name: the caller sees \<open>Bound\<close>.
\<close>

theorem newServer_probe_then_bind:
  "(accepting os name = Some delay \<and> delay \<le> 2000 \<longrightarrow>
      newServer name os
        = (\<lparr>isListening = False, fullServerName = []\<rparr>,
           os\<lparr>received := received os @ [(name, [0, 0, 0, 0])]\<rparr>)
      \<and> bindOrDetectExisting name os = AlreadyRunning
      \<and> written (writeMessage \<lparr>buffered = [], arriving = [], written = []\<rparr> []) = [0, 0, 0, 0])
   \<and> ((accepting os name = None \<or> (\<exists>d. accepting os name = Some d \<and> 2000 < d)) \<longrightarrow>
      newServer name os
        = (\<lparr>isListening = True, fullServerName = name\<rparr>,
           os\<lparr>accepting := (accepting os)(name \<mapsto> 0),
              registered := name # removeAll name (registered os)\<rparr>)
      \<and> bindOrDetectExisting name os = Bound)"
proof (intro conjI impI)
  assume live: "accepting os name = Some delay \<and> delay \<le> 2000"
  then have c: "waitForConnected os name 2000"
    by (simp add: waitForConnected_def)
  then show "newServer name os
        = (\<lparr>isListening = False, fullServerName = []\<rparr>,
           os\<lparr>received := received os @ [(name, [0, 0, 0, 0])]\<rparr>)"
    by (simp add: newServer_def writeUInt32_def)
  then show "bindOrDetectExisting name os = AlreadyRunning"
    by (simp add: bindOrDetectExisting_def)
  show "written (writeMessage \<lparr>buffered = [], arriving = [], written = []\<rparr> []) = [0, 0, 0, 0]"
    by (simp add: writeMessage_def writeBytes_def writeUInt32_def)
next
  assume dead: "accepting os name = None \<or> (\<exists>d. accepting os name = Some d \<and> 2000 < d)"
  then have c: "\<not> waitForConnected os name 2000"
    by (auto simp: waitForConnected_def)
  then show r: "newServer name os
        = (\<lparr>isListening = True, fullServerName = name\<rparr>,
           os\<lparr>accepting := (accepting os)(name \<mapsto> 0),
              registered := name # removeAll name (registered os)\<rparr>)"
    by (simp add: newServer_def listen_def removeServer_def)
  show "bindOrDetectExisting name os = Bound"
    by (simp add: bindOrDetectExisting_def r)
qed

text \<open>
  Both branches on the name of the command channel of the user \<open>alice\<close>, the second
  with a stale registration.
\<close>

theorem newServer_probe_then_bind_witness:
  "clipboardServerName False alice_environment = ''CopyQ_server_alice''
   \<and> bindOrDetectExisting (clipboardServerName False alice_environment)
      \<lparr>accepting = [''CopyQ_server_alice'' \<mapsto> 5], registered = [''CopyQ_server_alice''],
       received = []\<rparr> = AlreadyRunning
   \<and> received (snd (newServer (clipboardServerName False alice_environment)
      \<lparr>accepting = [''CopyQ_server_alice'' \<mapsto> 5], registered = [''CopyQ_server_alice''],
       received = []\<rparr>)) = [(''CopyQ_server_alice'', [0, 0, 0, 0])]
   \<and> bindOrDetectExisting (clipboardServerName False alice_environment)
      \<lparr>accepting = Map.empty, registered = [''CopyQ_server_alice''], received = []\<rparr> = Bound
   \<and> registered (snd (newServer (clipboardServerName False alice_environment)
      \<lparr>accepting = Map.empty, registered = [''CopyQ_server_alice''], received = []\<rparr>))
      = [''CopyQ_server_alice'']"
proof -
  have name: "clipboardServerName False alice_environment = ''CopyQ_server_alice''"
    by (simp add: clipboardServerName_def serverName_def alice_environment_def)
  show ?thesis
    unfolding name
    using newServer_probe_then_bind [of
        "\<lparr>accepting = [''CopyQ_server_alice'' \<mapsto> 5], registered = [''CopyQ_server_alice''],
          received = []\<rparr>" "''CopyQ_server_alice''" 5]
      newServer_probe_then_bind [of
        "\<lparr>accepting = Map.empty, registered = [''CopyQ_server_alice''], received = []\<rparr>"
        "''CopyQ_server_alice''" 0]
    by simp
qed

section \<open>Moving to the front\<close>

lemma getRowNumber_front: "getRowNumber 0 True model = (if rowCount model = 0 then -1 else 0)"
  by (simp add: getRowNumber_def rowCount_def)

lemma moveToFront_inner:
  assumes "0 < i \<and> i < rowCount model"
  shows "moveToFront i model
        = (True, model\<lparr>m_clipboardList :=
             m_clipboardList model ! nat i
               # take (nat i) (m_clipboardList model) @ drop (Suc (nat i)) (m_clipboardList model)\<rparr>)"
  using assms
  by (simp add: moveToFront_def move_def getRowNumber_def beginMoveRows_def QList_move_def Let_def)

lemma moveToFront_refused:
  assumes "i = 0 \<or> rowCount model \<le> i \<or> rowCount model \<le> 1"
  shows "moveToFront i model = (False, model)"
  using assms
  by (auto simp: moveToFront_def move_def getRowNumber_def beginMoveRows_def Let_def rowCount_def)

lemma moveToFront_negative:
  assumes a: "i < 0 \<and> 2 \<le> rowCount model"
  shows "moveToFront i model
        = (True, model\<lparr>m_clipboardList :=
             last (m_clipboardList model) # butlast (m_clipboardList model)\<rparr>)"
proof -
  from a have ne: "m_clipboardList model \<noteq> []"
    by (auto simp: rowCount_def)
  have len: "nat (rowCount model - 1) = length (m_clipboardList model) - 1"
    by (simp add: rowCount_def)
  have "m_clipboardList model ! (length (m_clipboardList model) - 1) = last (m_clipboardList model)"
    using ne by (simp add: last_conv_nth)
  moreover have "take (length (m_clipboardList model) - 1) (m_clipboardList model)
      = butlast (m_clipboardList model)"
    by (simp add: butlast_conv_take)
  ultimately show ?thesis
    using a ne
    by (simp add: moveToFront_def move_def getRowNumber_def beginMoveRows_def QList_move_def
        Let_def len)
qed

text \<open>
  C6, as amended. \<open>moveToFront(i)\<close> is \<open>move(i, 0)\<close>, and \<open>move\<close> maps both rows
  through \<open>getRowNumber(row, cycle = true)\<close>. For \<open>0 < i < length\<close> the item at \<open>i\<close>
  goes to the front, the others keep their order, and the result is true. For \<open>i = 0\<close>,
  for \<open>i \<ge> length\<close> (taken as row 0) and for a history of at most one item the result
  is false and nothing changes. A negative \<open>i\<close> is taken as the last row: with two or
  more items the last item goes to the front and the result is true.
\<close>

theorem moveToFront_cycles:
  "(0 < i \<and> i < rowCount model \<longrightarrow>
      moveToFront i model
        = (True, model\<lparr>m_clipboardList :=
             m_clipboardList model ! nat i
               # take (nat i) (m_clipboardList model) @ drop (Suc (nat i)) (m_clipboardList model)\<rparr>))
   \<and> (i = 0 \<or> rowCount model \<le> i \<or> rowCount model \<le> 1 \<longrightarrow>
      moveToFront i model = (False, model))
   \<and> (i < 0 \<and> 2 \<le> rowCount model \<longrightarrow>
      moveToFront i model
        = (True, model\<lparr>m_clipboardList :=
             last (m_clipboardList model) # butlast (m_clipboardList model)\<rparr>))"
  using moveToFront_inner moveToFront_refused moveToFront_negative by blast

theorem moveToFront_cycles_witness:
  "moveToFront 2 (example_model [bundle_A, bundle_B, bundle_C] 100)
      = (True, example_model [bundle_C, bundle_A, bundle_B] 100)
   \<and> moveToFront 0 (example_model [bundle_A, bundle_B, bundle_C] 100)
      = (False, example_model [bundle_A, bundle_B, bundle_C] 100)
   \<and> moveToFront 3 (example_model [bundle_A, bundle_B, bundle_C] 100)
      = (False, example_model [bundle_A, bundle_B, bundle_C] 100)
   \<and> moveToFront (- 5) (example_model [bundle_A, bundle_B, bundle_C] 100)
      = (True, example_model [bundle_C, bundle_A, bundle_B] 100)"
  using moveToFront_cycles [of 2 "example_model [bundle_A, bundle_B, bundle_C] 100"]
    moveToFront_cycles [of 0 "example_model [bundle_A, bundle_B, bundle_C] 100"]
    moveToFront_cycles [of 3 "example_model [bundle_A, bundle_B, bundle_C] 100"]
    moveToFront_cycles [of "- 5" "example_model [bundle_A, bundle_B, bundle_C] 100"]
  by (simp add: example_model_def rowCount_def)

text \<open>
  C6 as stated fails on a negative index: \<open>moveToFront(-1)\<close> on a history of two items
  returns true and swaps them.
\<close>

theorem moveToFront_negative_index_counterexample:
  "moveToFront (- 1) (example_model [bundle_A, bundle_B] 100)
     = (True, example_model [bundle_B, bundle_A] 100)
   \<and> moveToFront (- 1) (example_model [bundle_A, bundle_B] 100)
     \<noteq> (False, example_model [bundle_A, bundle_B] 100)"
  by (simp add: moveToFront_def move_def getRowNumber_def beginMoveRows_def QList_move_def
      Let_def example_model_def rowCount_def)

section \<open>Inserting at the front\<close>

lemma insert_front_model:
  "snd (setData 0 data (snd (insertRows 0 1 model)))
   = model\<lparr>m_clipboardList := ClipboardItem data # m_clipboardList model\<rparr>"
  by (simp add: setData_def insertRows_def QList_insert_def rowCount_def item_setData_def)

lemma removeRows_last:
  assumes "m_clipboardList model \<noteq> []"
  shows "removeRows (rowCount model - 1) 1 model
         = Some (True, model\<lparr>m_clipboardList := butlast (m_clipboardList model)\<rparr>)"
proof -
  let ?xs = "m_clipboardList model"
  have n: "0 < length ?xs" using assms by simp
  have "QList_takeAt (int (length ?xs) - 1) ?xs = Some (butlast ?xs)"
    using n by (simp add: QList_takeAt_def butlast_conv_take nat_diff_distrib')
  then show ?thesis
    using n by (simp add: removeRows_def rowCount_def Let_def)
qed

lemma trim_step:
  assumes "m_clipboardList model2 \<noteq> []"
  shows "(if rowCount model2 > cap
          then (case removeRows (rowCount model2 - 1) 1 model2 of
                  None \<Rightarrow> None
                | Some (removed, model3) \<Rightarrow> f model3)
          else f model2)
         = f (model2\<lparr>m_clipboardList := trimmed cap (m_clipboardList model2)\<rparr>)"
  unfolding removeRows_last [OF assms]
  by (simp add: trimmed_def rowCount_def)

lemma add_tail:
  "(let newRow = max 0 (min 0 (rowCount (m browser1)));
        model1 = snd (insertRows newRow 1 (m browser1));
        model2 = snd (setData newRow data model1)
    in if rowCount model2 > maxItems (m_sharedData browser1)
       then (case removeRows (rowCount model2 - 1) 1 model2 of
               None \<Rightarrow> None
             | Some (removed, model3) \<Rightarrow> Some (True, browser1\<lparr>m := model3\<rparr>))
       else Some (True, browser1\<lparr>m := model2\<rparr>))
   = Some (True, browser1\<lparr>m := (m browser1)\<lparr>m_clipboardList :=
        trimmed (maxItems (m_sharedData browser1))
          (ClipboardItem data # m_clipboardList (m browser1))\<rparr>\<rparr>)"
proof -
  have newRow: "max 0 (min 0 (rowCount (m browser1))) = 0"
    by (simp add: rowCount_def)
  show ?thesis
    unfolding Let_def newRow insert_front_model
    by (subst trim_step) simp_all
qed

text \<open>What \<open>add(data, force)\<close> does, in one equation.\<close>

lemma insertAtFront_eq:
  "insertAtFront data force browser =
     (if \<not> force \<and> (case m_clipboardList (m browser) of [] \<Rightarrow> False
                       | item # rest \<Rightarrow> item_equals item data)
      then Some (False, browser)
      else
        let sr = (if \<not> force \<and> hasText data
                  then run_commands (m_id browser) data (commands (m_sharedData browser))
                  else ([], False));
            browser1 = browser\<lparr>emitted := emitted browser @ fst sr\<rparr>
        in if snd sr then Some (False, browser1)
           else Some (True, browser1\<lparr>m := (m browser)\<lparr>m_clipboardList :=
                  trimmed (maxItems (m_sharedData browser))
                    (ClipboardItem data # m_clipboardList (m browser))\<rparr>\<rparr>))"
proof -
  let ?xs = "m_clipboardList (m browser)"
  have front: "(rowCount (m browser) > 0
        \<and> (case at (m browser) 0 of None \<Rightarrow> False | Some item \<Rightarrow> item_equals item data))
      = (case ?xs of [] \<Rightarrow> False | item # rest \<Rightarrow> item_equals item data)"
    by (cases ?xs) (simp_all add: rowCount_def at_def)
  show ?thesis
    unfolding insertAtFront_def add_def add_tail conj_assoc front
    by (simp add: Let_def split_beta)
qed


text \<open>
  C1. On a populated history whose first item equals the bundle \<open>x\<close>,
  \<open>insertAtFront(x, force = false)\<close> returns false and changes nothing, and
  \<open>insertAtFront(x, force = true)\<close> returns true and puts a new item with \<open>x\<close> in
  front of the others: the history grows by one item, unless that makes it longer than
  \<open>maxItems\<close>, in which case its last item is removed.
\<close>

theorem insertAtFront_duplicate_of_front:
  assumes "m_clipboardList (m browser) = item # rest" and "item_equals item x"
  shows "insertAtFront x False browser = Some (False, browser)
       \<and> insertAtFront x True browser
           = Some (True, browser\<lparr>m := (m browser)\<lparr>m_clipboardList :=
               (if int (length (item # rest)) + 1 > maxItems (m_sharedData browser)
                then ClipboardItem x # butlast (item # rest)
                else ClipboardItem x # item # rest)\<rparr>\<rparr>)"
  using assms by (simp add: insertAtFront_eq trimmed_def)

text \<open>Instances below the capacity and at it.\<close>

theorem insertAtFront_duplicate_of_front_witness:
  "m_clipboardList (m (example_browser [bundle_A, bundle_B] 3))
     = ClipboardItem bundle_A # [ClipboardItem bundle_B]
   \<and> item_equals (ClipboardItem bundle_A) bundle_A
   \<and> insertAtFront bundle_A False (example_browser [bundle_A, bundle_B] 3)
     = Some (False, example_browser [bundle_A, bundle_B] 3)
   \<and> insertAtFront bundle_A True (example_browser [bundle_A, bundle_B] 3)
     = Some (True, example_browser [bundle_A, bundle_A, bundle_B] 3)
   \<and> insertAtFront bundle_A True (example_browser [bundle_A, bundle_B] 2)
     = Some (True, example_browser [bundle_A, bundle_A] 2)"
proof -
  have h1: "m_clipboardList (m (example_browser [bundle_A, bundle_B] cap))
      = ClipboardItem bundle_A # [ClipboardItem bundle_B]" for cap
    by (simp add: example_browser_def example_model_def)
  have h2: "item_equals (ClipboardItem bundle_A) bundle_A"
    by (simp add: item_equals_def)
  show ?thesis
    using insertAtFront_duplicate_of_front [OF h1 h2, of 3]
      insertAtFront_duplicate_of_front [OF h1 h2, of 2] h1 [of 3] h2
    by (simp add: example_browser_def example_model_def)
qed

lemma insertAtFront_step:
  assumes "rowCount (m browser) \<le> maxItems (m_sharedData browser)"
  shows "\<exists>inserted browser1.
           insertAtFront data force browser = Some (inserted, browser1)
         \<and> m_sharedData browser1 = m_sharedData browser
         \<and> rowCount (m browser1) \<le> maxItems (m_sharedData browser)
         \<and> (\<not> inserted \<longrightarrow> m_clipboardList (m browser1) = m_clipboardList (m browser))
         \<and> (inserted \<longrightarrow>
              m_clipboardList (m browser1)
                = (if rowCount (m browser) + 1 > maxItems (m_sharedData browser)
                   then butlast (ClipboardItem data # m_clipboardList (m browser))
                   else ClipboardItem data # m_clipboardList (m browser))
            \<and> m_clipboardList (m browser1)
                = take (nat (maxItems (m_sharedData browser)))
                    (ClipboardItem data # m_clipboardList (m browser)))"
proof -
  let ?xs = "m_clipboardList (m browser)" and ?cap = "maxItems (m_sharedData browser)"
  let ?new = "trimmed ?cap (ClipboardItem data # ?xs)"
  have le: "int (length ?xs) \<le> ?cap" using assms by (simp add: rowCount_def)
  have tr: "?new = take (nat ?cap) (ClipboardItem data # ?xs)"
  proof (cases "int (length ?xs) + 1 > ?cap")
    case True
    with le have "nat ?cap = length ?xs" by simp
    then show ?thesis
      using True by (simp add: trimmed_def butlast_conv_take del: butlast.simps take_Cons')
  next
    case False
    then show ?thesis by (simp add: trimmed_def)
  qed
  have cut: "?new = (if rowCount (m browser) + 1 > ?cap
                     then butlast (ClipboardItem data # ?xs) else ClipboardItem data # ?xs)"
    by (simp add: trimmed_def rowCount_def del: butlast.simps)
  have bound: "int (length ?new) \<le> ?cap"
    unfolding tr using le by simp
  define sr where "sr = (if \<not> force \<and> hasText data
                         then run_commands (m_id browser) data (commands (m_sharedData browser))
                         else ([], False))"
  define dup where "dup = (\<not> force \<and> (case ?xs of [] \<Rightarrow> False
                                         | item # rest \<Rightarrow> item_equals item data))"
  have eq: "insertAtFront data force browser
      = (if dup then Some (False, browser)
         else if snd sr then Some (False, browser\<lparr>emitted := emitted browser @ fst sr\<rparr>)
         else Some (True, browser\<lparr>emitted := emitted browser @ fst sr,
                                  m := (m browser)\<lparr>m_clipboardList := ?new\<rparr>\<rparr>))"
    unfolding insertAtFront_eq sr_def dup_def by (simp add: Let_def)
  have fits: "rowCount ((m browser)\<lparr>m_clipboardList := ?new\<rparr>) \<le> ?cap"
    using bound by (simp add: rowCount_def)
  let ?P = "\<lambda>inserted browser1.
      insertAtFront data force browser = Some (inserted, browser1)
    \<and> m_sharedData browser1 = m_sharedData browser
    \<and> rowCount (m browser1) \<le> ?cap
    \<and> (\<not> inserted \<longrightarrow> m_clipboardList (m browser1) = ?xs)
    \<and> (inserted \<longrightarrow>
         m_clipboardList (m browser1)
           = (if rowCount (m browser) + 1 > ?cap
              then butlast (ClipboardItem data # ?xs) else ClipboardItem data # ?xs)
       \<and> m_clipboardList (m browser1) = take (nat ?cap) (ClipboardItem data # ?xs))"
  show ?thesis
  proof (cases dup)
    case True
    then have "?P False browser"
      using assms by (simp add: eq)
    then show ?thesis by blast
  next
    case False
    show ?thesis
    proof (cases "snd sr")
      case True
      with False have "?P False (browser\<lparr>emitted := emitted browser @ fst sr\<rparr>)"
        using assms by (simp add: eq)
      then show ?thesis by blast
    next
      case ok: False
      let ?b = "browser\<lparr>emitted := emitted browser @ fst sr,
                         m := (m browser)\<lparr>m_clipboardList := ?new\<rparr>\<rparr>"
      have r: "insertAtFront data force browser = Some (True, ?b)"
        using False ok by (simp add: eq)
      have l: "m_clipboardList (m ?b) = ?new" and sd: "m_sharedData ?b = m_sharedData browser"
        and mm: "m ?b = (m browser)\<lparr>m_clipboardList := ?new\<rparr>"
        by simp_all
      have "?P True ?b"
        using r fits cut tr by (simp del: butlast.simps take_Cons')
      then show ?thesis by blast
    qed
  qed
qed

text \<open>
  C2. From a history no longer than \<open>maxItems\<close>, every sequence of \<open>insertAtFront\<close>
  calls runs to its end, and after each call the history is no longer than \<open>maxItems\<close>.
  A call that returns false leaves the items as they were. A call that returns true
  leaves the new item followed by the old ones, without the last item of that list when
  it is longer than \<open>maxItems\<close>: these are the first \<open>maxItems\<close> items, so what is
  removed is the item at the highest index, never the new one or one in between.
\<close>

theorem insertAtFront_calls_capacity:
  assumes "rowCount (m browser) \<le> maxItems (m_sharedData browser)"
  shows "\<exists>after. insertAtFront_calls calls browser = Some after
       \<and> length after = length calls
       \<and> (\<forall>i < length calls. \<exists>inserted.
            insertAtFront (fst (calls ! i)) (snd (calls ! i)) ((browser # after) ! i)
              = Some (inserted, after ! i)
          \<and> rowCount (m (after ! i)) \<le> maxItems (m_sharedData browser)
          \<and> (\<not> inserted \<longrightarrow>
               m_clipboardList (m (after ! i)) = m_clipboardList (m ((browser # after) ! i)))
          \<and> (inserted \<longrightarrow>
               m_clipboardList (m (after ! i))
                 = (if rowCount (m ((browser # after) ! i)) + 1 > maxItems (m_sharedData browser)
                    then butlast (ClipboardItem (fst (calls ! i))
                                    # m_clipboardList (m ((browser # after) ! i)))
                    else ClipboardItem (fst (calls ! i))
                           # m_clipboardList (m ((browser # after) ! i)))
             \<and> m_clipboardList (m (after ! i))
                 = take (nat (maxItems (m_sharedData browser)))
                     (ClipboardItem (fst (calls ! i))
                        # m_clipboardList (m ((browser # after) ! i)))))"
  using assms
proof (induction calls arbitrary: browser)
  case Nil
  then show ?case by simp
next
  case (Cons call calls)
  let ?cap = "maxItems (m_sharedData browser)"
  let ?ok = "\<lambda>prev c next. \<exists>inserted.
      insertAtFront (fst c) (snd c) prev = Some (inserted, next)
    \<and> rowCount (m next) \<le> ?cap
    \<and> (\<not> inserted \<longrightarrow> m_clipboardList (m next) = m_clipboardList (m prev))
    \<and> (inserted \<longrightarrow>
         m_clipboardList (m next)
           = (if rowCount (m prev) + 1 > ?cap
              then butlast (ClipboardItem (fst c) # m_clipboardList (m prev))
              else ClipboardItem (fst c) # m_clipboardList (m prev))
       \<and> m_clipboardList (m next)
           = take (nat ?cap) (ClipboardItem (fst c) # m_clipboardList (m prev)))"
  obtain data force where call: "call = (data, force)" by (cases call)
  from insertAtFront_step [OF Cons.prems, of data force]
  obtain inserted browser1 where
    step: "insertAtFront data force browser = Some (inserted, browser1)"
    and sd: "m_sharedData browser1 = m_sharedData browser"
    and cap: "rowCount (m browser1) \<le> ?cap"
    and first: "?ok browser call browser1"
    unfolding call fst_conv snd_conv by blast
  from cap sd have "rowCount (m browser1) \<le> maxItems (m_sharedData browser1)" by simp
  from Cons.IH [OF this] obtain later where
    run: "insertAtFront_calls calls browser1 = Some later"
    and len: "length later = length calls"
    and rest: "\<forall>i < length calls. ?ok ((browser1 # later) ! i) (calls ! i) (later ! i)"
    unfolding sd by blast
  have "insertAtFront_calls (call # calls) browser = Some (browser1 # later)"
    by (simp add: call step run)
  moreover have "length (browser1 # later) = length (call # calls)"
    by (simp add: len)
  moreover have "\<forall>i < length (call # calls).
      ?ok ((browser # browser1 # later) ! i) ((call # calls) ! i) ((browser1 # later) ! i)"
  proof (intro allI impI)
    fix i assume i: "i < length (call # calls)"
    show "?ok ((browser # browser1 # later) ! i) ((call # calls) ! i) ((browser1 # later) ! i)"
    proof (cases i)
      case 0
      then show ?thesis using first by (simp only: nth_Cons_0)
    next
      case (Suc j)
      with i have "j < length calls" by simp
      with rest have "?ok ((browser1 # later) ! j) (calls ! j) (later ! j)" by blast
      then show ?thesis unfolding Suc by (simp only: nth_Cons_Suc)
    qed
  qed
  ultimately show ?case by blast
qed

text \<open>
  An instance: five calls on an empty history of capacity 3. The third call repeats the
  front item and is refused; the fifth inserts \<open>D\<close> into the full history \<open>[C, B, A]\<close>
  and evicts \<open>A\<close>, the item at the highest index.
\<close>

theorem insertAtFront_calls_capacity_witness:
  "rowCount (m (example_browser [] 3)) \<le> maxItems (m_sharedData (example_browser [] 3))
   \<and> insertAtFront_calls
        [(bundle_A, True), (bundle_B, False), (bundle_B, False), (bundle_C, True),
         (bundle_D, False)]
        (example_browser [] 3)
      = Some [example_browser [bundle_A] 3, example_browser [bundle_B, bundle_A] 3,
              example_browser [bundle_B, bundle_A] 3,
              example_browser [bundle_C, bundle_B, bundle_A] 3,
              example_browser [bundle_D, bundle_C, bundle_B] 3]
   \<and> (\<exists>after. insertAtFront_calls
          [(bundle_A, True), (bundle_B, False), (bundle_B, False), (bundle_C, True),
           (bundle_D, False)]
          (example_browser [] 3) = Some after
        \<and> length after = 5
        \<and> insertAtFront bundle_B False (after ! 1) = Some (False, after ! 2)
        \<and> m_clipboardList (m (after ! 2)) = m_clipboardList (m (after ! 1))
        \<and> insertAtFront bundle_D False (after ! 3) = Some (True, after ! 4)
        \<and> rowCount (m (after ! 4)) \<le> 3
        \<and> m_clipboardList (m (after ! 4))
            = butlast (ClipboardItem bundle_D # m_clipboardList (m (after ! 3)))
        \<and> m_clipboardList (m (after ! 4))
            = take 3 (ClipboardItem bundle_D # m_clipboardList (m (after ! 3))))"
proof -
  let ?calls = "[(bundle_A, True), (bundle_B, False), (bundle_B, False), (bundle_C, True),
                 (bundle_D, False)]"
  let ?trace = "[example_browser [bundle_A] 3, example_browser [bundle_B, bundle_A] 3,
                 example_browser [bundle_B, bundle_A] 3,
                 example_browser [bundle_C, bundle_B, bundle_A] 3,
                 example_browser [bundle_D, bundle_C, bundle_B] 3]"
  have h: "rowCount (m (example_browser [] 3)) \<le> maxItems (m_sharedData (example_browser [] 3))"
    by (simp add: example_browser_def example_model_def rowCount_def)
  have trace: "insertAtFront_calls ?calls (example_browser [] 3) = Some ?trace"
    by (simp add: insertAtFront_eq trimmed_def example_browser_def example_model_def
        item_equals_def hasText_def hasFormat_def
        bundle_A_def bundle_B_def bundle_C_def bundle_D_def)
  from insertAtFront_calls_capacity [OF h, of ?calls]
  obtain after where
    run: "insertAtFront_calls ?calls (example_browser [] 3) = Some after"
    and len: "length after = 5"
    and all: "\<forall>i < 5. \<exists>inserted.
            insertAtFront (fst (?calls ! i)) (snd (?calls ! i)) ((example_browser [] 3 # after) ! i)
              = Some (inserted, after ! i)
          \<and> rowCount (m (after ! i)) \<le> maxItems (m_sharedData (example_browser [] 3))
          \<and> (\<not> inserted \<longrightarrow>
               m_clipboardList (m (after ! i))
                 = m_clipboardList (m ((example_browser [] 3 # after) ! i)))
          \<and> (inserted \<longrightarrow>
               m_clipboardList (m (after ! i))
                 = (if rowCount (m ((example_browser [] 3 # after) ! i)) + 1
                        > maxItems (m_sharedData (example_browser [] 3))
                    then butlast (ClipboardItem (fst (?calls ! i))
                                    # m_clipboardList (m ((example_browser [] 3 # after) ! i)))
                    else ClipboardItem (fst (?calls ! i))
                           # m_clipboardList (m ((example_browser [] 3 # after) ! i)))
             \<and> m_clipboardList (m (after ! i))
                 = take (nat (maxItems (m_sharedData (example_browser [] 3))))
                     (ClipboardItem (fst (?calls ! i))
                        # m_clipboardList (m ((example_browser [] 3 # after) ! i))))"
    by auto
  have after: "after = ?trace"
    using run trace by simp
  have cap3: "maxItems (m_sharedData (example_browser [] 3)) = 3" and nat3: "nat 3 = 3"
    by (simp_all add: example_browser_def)
  have prev2: "(example_browser [] 3 # after) ! 2 = after ! 1"
    and prev4: "(example_browser [] 3 # after) ! 4 = after ! 3"
    and call2: "?calls ! 2 = (bundle_B, False)" and call4: "?calls ! 4 = (bundle_D, False)"
    by simp_all
  have lt2: "(2::nat) < 5" and lt4: "(4::nat) < 5" by simp_all
  note inst2 = all [THEN spec, of 2, THEN mp, OF lt2,
      unfolded prev2 call2 cap3 nat3 fst_conv snd_conv]
  note inst4 = all [THEN spec, of 4, THEN mp, OF lt4,
      unfolded prev4 call4 cap3 nat3 fst_conv snd_conv]
  have a2: "\<exists>inserted.
        insertAtFront bundle_B False (after ! 1) = Some (inserted, after ! 2)
      \<and> (\<not> inserted \<longrightarrow> m_clipboardList (m (after ! 2)) = m_clipboardList (m (after ! 1)))"
    using inst2 by blast
  then obtain ins2 where
    c2: "insertAtFront bundle_B False (after ! 1) = Some (ins2, after ! 2)"
    and n2: "\<not> ins2 \<longrightarrow> m_clipboardList (m (after ! 2)) = m_clipboardList (m (after ! 1))"
    by blast
  have "insertAtFront bundle_B False (after ! 1) = Some (False, after ! 2)"
    unfolding after
    by (simp add: insertAtFront_eq example_browser_def example_model_def item_equals_def)
  with c2 have i2: "\<not> ins2" by simp
  have a4: "\<exists>inserted.
        insertAtFront bundle_D False (after ! 3) = Some (inserted, after ! 4)
      \<and> rowCount (m (after ! 4)) \<le> 3
      \<and> (\<not> inserted \<longrightarrow> m_clipboardList (m (after ! 4)) = m_clipboardList (m (after ! 3)))
      \<and> (inserted \<longrightarrow>
           m_clipboardList (m (after ! 4))
             = (if rowCount (m (after ! 3)) + 1 > 3
                then butlast (ClipboardItem bundle_D # m_clipboardList (m (after ! 3)))
                else ClipboardItem bundle_D # m_clipboardList (m (after ! 3)))
         \<and> m_clipboardList (m (after ! 4))
             = take 3 (ClipboardItem bundle_D # m_clipboardList (m (after ! 3))))"
    by (rule inst4)
  then obtain ins4 where
    c4: "insertAtFront bundle_D False (after ! 3) = Some (ins4, after ! 4)"
    and b4: "rowCount (m (after ! 4)) \<le> 3"
    and n4: "\<not> ins4 \<longrightarrow> m_clipboardList (m (after ! 4)) = m_clipboardList (m (after ! 3))"
    and y4: "ins4 \<longrightarrow>
         m_clipboardList (m (after ! 4))
           = (if rowCount (m (after ! 3)) + 1 > 3
              then butlast (ClipboardItem bundle_D # m_clipboardList (m (after ! 3)))
              else ClipboardItem bundle_D # m_clipboardList (m (after ! 3)))
       \<and> m_clipboardList (m (after ! 4))
           = take 3 (ClipboardItem bundle_D # m_clipboardList (m (after ! 3)))"
    by blast
  have "m_clipboardList (m (after ! 4)) \<noteq> m_clipboardList (m (after ! 3))"
    unfolding after
    by (simp add: example_browser_def example_model_def bundle_C_def bundle_D_def)
  with n4 have i4: ins4 by blast
  have full: "rowCount (m (after ! 3)) + 1 > 3"
    unfolding after by (simp add: example_browser_def example_model_def rowCount_def)
  from y4 i4 have both:
      "m_clipboardList (m (after ! 4))
         = (if rowCount (m (after ! 3)) + 1 > 3
            then butlast (ClipboardItem bundle_D # m_clipboardList (m (after ! 3)))
            else ClipboardItem bundle_D # m_clipboardList (m (after ! 3)))"
      "m_clipboardList (m (after ! 4))
         = take 3 (ClipboardItem bundle_D # m_clipboardList (m (after ! 3)))"
    by blast+
  from both(1) have cut4: "m_clipboardList (m (after ! 4))
      = butlast (ClipboardItem bundle_D # m_clipboardList (m (after ! 3)))"
    by (simp only: full if_True)
  from c2 i2 have r2: "insertAtFront bundle_B False (after ! 1) = Some (False, after ! 2)"
    by (simp only: simp_thms)
  from c4 i4 have r4: "insertAtFront bundle_D False (after ! 3) = Some (True, after ! 4)"
    by (simp only: simp_thms)
  from n2 i2 have k2: "m_clipboardList (m (after ! 2)) = m_clipboardList (m (after ! 1))"
    by blast
  from r2 k2 r4 b4 cut4 both(2)
  have res: "insertAtFront bundle_B False (after ! 1) = Some (False, after ! 2)
        \<and> m_clipboardList (m (after ! 2)) = m_clipboardList (m (after ! 1))
        \<and> insertAtFront bundle_D False (after ! 3) = Some (True, after ! 4)
        \<and> rowCount (m (after ! 4)) \<le> 3
        \<and> m_clipboardList (m (after ! 4))
            = butlast (ClipboardItem bundle_D # m_clipboardList (m (after ! 3)))
        \<and> m_clipboardList (m (after ! 4))
            = take 3 (ClipboardItem bundle_D # m_clipboardList (m (after ! 3)))"
    by blast
  from h trace run len res show ?thesis by blast
qed

section \<open>The scenario with capacity 3\<close>

lemma findItem_loop_skip:
  "i < length xs \<Longrightarrow> itemHash (xs ! i) \<noteq> item_hash \<Longrightarrow>
   findItem_loop itemHash item_hash xs i = findItem_loop itemHash item_hash xs (Suc i)"
  by (subst findItem_loop.simps) simp

lemma findItem_loop_hit:
  "i < length xs \<Longrightarrow> itemHash (xs ! i) = item_hash \<Longrightarrow>
   findItem_loop itemHash item_hash xs i = int i"
  by (subst findItem_loop.simps) simp

text \<open>
  C9, as amended. With \<open>maxItems = 3\<close> and an empty history, inserting \<open>A\<close>, \<open>B\<close>,
  \<open>C\<close>, \<open>D\<close> with \<open>force = true\<close> gives \<open>[D, C, B]\<close>; \<open>moveToFront(1)\<close> then moves
  \<open>C\<close>, the item at row 1, and gives \<open>[C, D, B]\<close>; \<open>findItem\<close>, which returns the
  first row whose hash matches, finds the hash of \<open>D\<close> at row 1 when the hash of \<open>C\<close>
  differs from it.
\<close>

theorem scenario_capacity_three:
  assumes "m_clipboardList (m browser) = []" and "maxItems (m_sharedData browser) = 3"
  shows "\<exists>b1 b2 b3 b4.
      insertAtFront_calls [(A, True), (B, True), (C, True), (D, True)] browser
        = Some [b1, b2, b3, b4]
    \<and> m_clipboardList (m b4) = map ClipboardItem [D, C, B]
    \<and> moveToFront 1 (m b4) = (True, (m b4)\<lparr>m_clipboardList := map ClipboardItem [C, D, B]\<rparr>)
    \<and> (itemHash (ClipboardItem C) \<noteq> itemHash (ClipboardItem D) \<longrightarrow>
         findItem itemHash (itemHash (ClipboardItem D)) (snd (moveToFront 1 (m b4))) = 1)"
proof -
  define b1 where "b1 = browser\<lparr>m := (m browser)\<lparr>m_clipboardList := map ClipboardItem [A]\<rparr>\<rparr>"
  define b2 where "b2 = browser\<lparr>m := (m browser)\<lparr>m_clipboardList := map ClipboardItem [B, A]\<rparr>\<rparr>"
  define b3 where "b3 = browser\<lparr>m := (m browser)\<lparr>m_clipboardList := map ClipboardItem [C, B, A]\<rparr>\<rparr>"
  define b4 where "b4 = browser\<lparr>m := (m browser)\<lparr>m_clipboardList := map ClipboardItem [D, C, B]\<rparr>\<rparr>"
  have s1: "insertAtFront A True browser = Some (True, b1)"
    using assms by (simp add: insertAtFront_eq trimmed_def b1_def)
  have s2: "insertAtFront B True b1 = Some (True, b2)"
    using assms by (simp add: insertAtFront_eq trimmed_def b1_def b2_def)
  have s3: "insertAtFront C True b2 = Some (True, b3)"
    using assms by (simp add: insertAtFront_eq trimmed_def b2_def b3_def)
  have s4: "insertAtFront D True b3 = Some (True, b4)"
    using assms by (simp add: insertAtFront_eq trimmed_def b3_def b4_def)
  have run: "insertAtFront_calls [(A, True), (B, True), (C, True), (D, True)] browser
        = Some [b1, b2, b3, b4]"
    by (simp add: s1 s2 s3 s4)
  have l4: "m_clipboardList (m b4) = map ClipboardItem [D, C, B]"
    by (simp add: b4_def)
  have mv: "moveToFront 1 (m b4)
      = (True, (m b4)\<lparr>m_clipboardList := map ClipboardItem [C, D, B]\<rparr>)"
    using moveToFront_inner [of 1 "m b4"] by (simp add: l4 rowCount_def)
  have fi: "findItem itemHash (itemHash (ClipboardItem D)) (snd (moveToFront 1 (m b4))) = 1"
    if "itemHash (ClipboardItem C) \<noteq> itemHash (ClipboardItem D)"
    using that by (simp add: mv findItem_def findItem_loop_skip findItem_loop_hit)
  show ?thesis
    using run l4 mv fi by blast
qed


text \<open>The scenario on the four example bundles, hashed over \<open>text/plain\<close>.\<close>

theorem scenario_capacity_three_witness:
  "m_clipboardList (m (example_browser [] 3)) = []
   \<and> maxItems (m_sharedData (example_browser [] 3)) = 3
   \<and> example_dataHash (ClipboardItem bundle_C) \<noteq> example_dataHash (ClipboardItem bundle_D)
   \<and> (\<exists>b1 b2 b3 b4.
        insertAtFront_calls
            [(bundle_A, True), (bundle_B, True), (bundle_C, True), (bundle_D, True)]
            (example_browser [] 3)
          = Some [b1, b2, b3, b4]
      \<and> m_clipboardList (m b4) = map ClipboardItem [bundle_D, bundle_C, bundle_B]
      \<and> moveToFront 1 (m b4)
          = (True, (m b4)\<lparr>m_clipboardList := map ClipboardItem [bundle_C, bundle_D, bundle_B]\<rparr>)
      \<and> findItem example_dataHash (example_dataHash (ClipboardItem bundle_D))
          (snd (moveToFront 1 (m b4))) = 1)"
proof -
  have h1: "m_clipboardList (m (example_browser [] 3)) = []"
    and h2: "maxItems (m_sharedData (example_browser [] 3)) = 3"
    by (simp_all add: example_browser_def example_model_def)
  have h3: "example_dataHash (ClipboardItem bundle_C) \<noteq> example_dataHash (ClipboardItem bundle_D)"
    by code_simp
  show ?thesis
    using scenario_capacity_three [OF h1 h2, of bundle_A bundle_B bundle_C bundle_D
        example_dataHash] h1 h2 h3
    by blast
qed

text \<open>
  C9 as stated fails: after the four insertions the history is \<open>[D, C, B]\<close>, whose
  row 1 holds \<open>C\<close>, so \<open>moveToFront(1)\<close> gives \<open>[C, D, B]\<close> and not \<open>[B, D, C]\<close>.
\<close>

theorem scenario_capacity_three_counterexample:
  "insertAtFront_calls
       [(bundle_A, True), (bundle_B, True), (bundle_C, True), (bundle_D, True)]
       (example_browser [] 3)
     = Some [example_browser [bundle_A] 3, example_browser [bundle_B, bundle_A] 3,
             example_browser [bundle_C, bundle_B, bundle_A] 3,
             example_browser [bundle_D, bundle_C, bundle_B] 3]
   \<and> moveToFront 1 (example_model [bundle_D, bundle_C, bundle_B] 3)
     = (True, example_model [bundle_C, bundle_D, bundle_B] 3)
   \<and> example_model [bundle_C, bundle_D, bundle_B] 3
     \<noteq> example_model [bundle_B, bundle_D, bundle_C] 3"
  by (simp add: insertAtFront_eq trimmed_def example_browser_def example_model_def
      moveToFront_def move_def getRowNumber_def beginMoveRows_def QList_move_def
      Let_def rowCount_def bundle_A_def bundle_B_def bundle_C_def bundle_D_def)

section \<open>Saving and loading\<close>

lemma readUInt32_append: "readUInt32 (writeUInt32 w @ rest) = w"
proof -
  have "take 4 (writeUInt32 w @ rest) = writeUInt32 w"
    by (simp add: length_writeUInt32)
  then have "readUInt32 (writeUInt32 w @ rest) = readUInt32 (writeUInt32 w)"
    by (simp add: readUInt32_def length_writeUInt32)
  then show ?thesis by (simp add: readUInt32_writeUInt32)
qed

lemma readInt32_writeInt32:
  assumes "- (2 ^ 31) \<le> n" and "n < 2 ^ 31"
  shows "readInt32 (writeInt32 n @ rest) = (n, rest)"
proof -
  have "sint (word_of_int n :: 32 word) = n"
    using assms by (simp add: sint_sbintrunc' signed_take_bit_int_eq_self)
  then show ?thesis
    by (simp add: readInt32_def writeInt32_def readUInt32_append length_writeUInt32)
qed

lemma write_loop_eq:
  assumes "0 \<le> i" and "len \<le> rowCount model"
  shows "write_loop put_item model i len stream
         = Some (stream @ concat (map put_item
                    (drop (nat i) (take (nat len) (m_clipboardList model)))))"
  using assms
proof (induction put_item model i len stream rule: write_loop.induct)
  case (1 put_item model i len stream)
  let ?xs = "m_clipboardList model"
  show ?case
  proof (cases "i < len")
    case False
    then have "drop (nat i) (take (nat len) ?xs) = []" by simp
    with False show ?thesis by (subst write_loop.simps) simp
  next
    case True
    with "1.prems" have inr: "0 \<le> i \<and> i < rowCount model" by simp
    then have at: "at model i = Some (?xs ! nat i)" by (simp add: at_def)
    have lt: "nat i < length (take (nat len) ?xs)"
      using True "1.prems" by (simp add: rowCount_def)
    have "drop (nat i) (take (nat len) ?xs)
          = take (nat len) ?xs ! nat i # drop (Suc (nat i)) (take (nat len) ?xs)"
      using lt by (rule Cons_nth_drop_Suc [symmetric])
    moreover have "take (nat len) ?xs ! nat i = ?xs ! nat i"
      using True "1.prems" by simp
    moreover have "Suc (nat i) = nat (i + 1)"
      using "1.prems" by simp
    ultimately have dr: "drop (nat i) (take (nat len) ?xs)
          = ?xs ! nat i # drop (nat (i + 1)) (take (nat len) ?xs)"
      by simp
    have "write_loop put_item model i len stream
          = write_loop put_item model (i + 1) len (stream @ put_item (?xs ! nat i))"
      using True by (subst write_loop.simps) (simp add: at)
    also have "\<dots> = Some ((stream @ put_item (?xs ! nat i))
          @ concat (map put_item (drop (nat (i + 1)) (take (nat len) ?xs))))"
      using "1.IH" [OF True at] "1.prems" by simp
    finally show ?thesis by (simp add: dr)
  qed
qed

lemma write_model_eq:
  "write_model put_item stream model
   = Some (stream @ writeInt32 (rowCount model) @ concat (map put_item (m_clipboardList model)))"
  using write_loop_eq [of 0 "rowCount model" model put_item "stream @ writeInt32 (rowCount model)"]
  by (simp add: write_model_def Let_def rowCount_def)

lemma read_loop_eq:
  assumes "\<forall>item\<in>set items. \<forall>rest. get_item (put_item item @ rest) = (item, rest)"
    and "n \<le> length items"
  shows "read_loop get_item n (concat (map put_item items) @ rest) model
         = (concat (map put_item (drop n items)) @ rest,
            model\<lparr>m_clipboardList := m_clipboardList model @ take n items\<rparr>)"
  using assms
proof (induction n arbitrary: items model)
  case 0
  then show ?case by simp
next
  case (Suc n)
  then obtain item others where items: "items = item # others"
    by (cases items) auto
  have get: "get_item (put_item item @ concat (map put_item others) @ rest)
             = (item, concat (map put_item others) @ rest)"
    using Suc.prems(1) by (simp add: items)
  have "read_loop get_item (Suc n) (concat (map put_item items) @ rest) model
        = read_loop get_item n (concat (map put_item others) @ rest)
            (model\<lparr>m_clipboardList := m_clipboardList model @ [item]\<rparr>)"
    by (simp add: items get append_item_def)
  also have "\<dots> = (concat (map put_item (drop n others)) @ rest,
            model\<lparr>m_clipboardList := (m_clipboardList model @ [item]) @ take n others\<rparr>)"
    using Suc.IH [of others "model\<lparr>m_clipboardList := m_clipboardList model @ [item]\<rparr>"]
      Suc.prems by (simp add: items)
  finally show ?case by (simp add: items)
qed

lemma read_model_eq:
  assumes codec: "\<forall>item\<in>set items. \<forall>rest. get_item (put_item item @ rest) = (item, rest)"
    and small: "int (length items) < 2 ^ 31"
  shows "read_model get_item (writeInt32 (int (length items)) @ concat (map put_item items) @ rest)
           model
         = (concat (map put_item
              (drop (nat (min (int (length items)) (maxItems_of model) - rowCount model)) items))
              @ rest,
            model\<lparr>m_clipboardList := m_clipboardList model
              @ take (nat (min (int (length items)) (maxItems_of model) - rowCount model)) items\<rparr>)"
proof -
  let ?n = "nat (min (int (length items)) (maxItems_of model) - rowCount model)"
  have hdr: "readInt32 (writeInt32 (int (length items)) @ concat (map put_item items) @ rest)
             = (int (length items), concat (map put_item items) @ rest)"
    using small by (intro readInt32_writeInt32) simp_all
  have "?n \<le> length items"
    by (simp add: rowCount_def)
  from read_loop_eq [OF codec this, of rest model]
  show ?thesis
    by (simp add: read_model_def hdr)
qed


text \<open>
  C10. A stream written from a history of \<open>N\<close> items, read into a history that holds
  \<open>k\<close> items and has the capacity \<open>c\<close>, appends exactly \<open>max(0, min(N, c) - k)\<close>
  items: the first ones of the stream, in the order of the stream, after the \<open>k\<close> items
  that were there, which stay as they are; for \<open>k \<ge> min(N, c)\<close> nothing changes. The
  item reader is assumed to read back what the item writer wrote for the items saved.
\<close>

theorem read_model_appends:
  assumes "\<forall>item\<in>set (m_clipboardList source). \<forall>rest.
             get_item (put_item item @ rest) = (item, rest)"
    and "rowCount source < 2 ^ 31"
    and "write_model put_item [] source = Some stream"
  shows "snd (read_model get_item stream model)
           = model\<lparr>m_clipboardList := m_clipboardList model
               @ take (nat (max 0 (min (rowCount source) (maxItems_of model) - rowCount model)))
                   (m_clipboardList source)\<rparr>
       \<and> length (take (nat (max 0 (min (rowCount source) (maxItems_of model) - rowCount model)))
                   (m_clipboardList source))
           = nat (max 0 (min (rowCount source) (maxItems_of model) - rowCount model))
       \<and> (min (rowCount source) (maxItems_of model) \<le> rowCount model \<longrightarrow>
            snd (read_model get_item stream model) = model)"
proof -
  let ?items = "m_clipboardList source"
  let ?n = "nat (min (rowCount source) (maxItems_of model) - rowCount model)"
  have stream: "stream = writeInt32 (int (length ?items)) @ concat (map put_item ?items) @ []"
    using assms(3) by (simp add: write_model_eq rowCount_def)
  have small: "int (length ?items) < 2 ^ 31"
    using assms(2) by (simp add: rowCount_def)
  have rd: "snd (read_model get_item stream model)
      = model\<lparr>m_clipboardList := m_clipboardList model @ take ?n ?items\<rparr>"
    unfolding stream read_model_eq [OF assms(1) small] by (simp add: rowCount_def)
  have n: "nat (max 0 (min (rowCount source) (maxItems_of model) - rowCount model)) = ?n"
    by simp
  have "?n \<le> length ?items"
    by (simp add: rowCount_def)
  then have len: "length (take ?n ?items) = ?n"
    by simp
  have "snd (read_model get_item stream model) = model"
    if "min (rowCount source) (maxItems_of model) \<le> rowCount model"
    using that by (simp add: rd)
  with rd len show ?thesis
    unfolding n by blast
qed

text \<open>
  C4. Saving writes the number of items and then the items from row 0 to the last row.
  Loading that stream into an empty history of the same capacity restores the first
  \<open>min(N, capacity)\<close> items in the same order; with \<open>N \<le> capacity\<close> it restores the
  whole sequence and consumes the whole stream. The item reader is assumed to read back
  what the item writer wrote for the items saved.
\<close>

theorem save_load_round_trip:
  assumes "\<forall>item\<in>set (m_clipboardList source). \<forall>rest.
             get_item (put_item item @ rest) = (item, rest)"
    and "rowCount source < 2 ^ 31"
    and "m_clipboardList target = []"
    and "m_max target = m_max source"
  shows "\<exists>stream. write_model put_item [] source = Some stream
       \<and> stream = writeInt32 (rowCount source) @ concat (map put_item (m_clipboardList source))
       \<and> m_clipboardList (snd (read_model get_item stream target))
           = take (nat (min (rowCount source) (m_max source))) (m_clipboardList source)
       \<and> (rowCount source \<le> m_max source \<longrightarrow>
            read_model get_item stream target
              = ([], target\<lparr>m_clipboardList := m_clipboardList source\<rparr>))"
proof -
  let ?items = "m_clipboardList source"
  let ?stream = "writeInt32 (rowCount source) @ concat (map put_item ?items)"
  have w: "write_model put_item [] source = Some ?stream"
    by (simp add: write_model_eq)
  have small: "int (length ?items) < 2 ^ 31"
    using assms(2) by (simp add: rowCount_def)
  have rd: "read_model get_item ?stream target
      = (concat (map put_item (drop (nat (min (rowCount source) (m_max source))) ?items)),
         target\<lparr>m_clipboardList := take (nat (min (rowCount source) (m_max source))) ?items\<rparr>)"
    using read_model_eq [OF assms(1) small, of "[]" target] assms(3,4)
    by (simp add: rowCount_def maxItems_of_def)
  have "read_model get_item ?stream target = ([], target\<lparr>m_clipboardList := ?items\<rparr>)"
    if "rowCount source \<le> m_max source"
    using that unfolding rd by (simp add: rowCount_def)
  with w rd show ?thesis by simp
qed

lemma char_of_byte_of_char: "char_of_byte (byte_of_char c) = c"
  by (simp add: char_of_byte_def byte_of_char_def unat_of_nat)

lemma get_put_formats:
  assumes "\<forall>(name, payload)\<in>set d. length name < 2 ^ 32 \<and> length payload < 2 ^ 32"
  shows "get_formats (length d) (put_formats d @ rest) = (d, rest)"
  using assms
proof (induction d)
  case Nil
  then show ?case by simp
next
  case (Cons entry d)
  obtain name payload where entry: "entry = (name, payload)" by (cases entry)
  from Cons.prems have n: "length name < 2 ^ 32" and p: "length payload < 2 ^ 32"
    by (simp_all add: entry)
  have un: "unat (word_of_nat (length name) :: 32 word) = length name"
    and up: "unat (word_of_nat (length payload) :: 32 word) = length payload"
    using n p by (simp_all add: unat_of_nat)
  have names: "map char_of_byte (map byte_of_char name) = name"
    by (simp add: char_of_byte_of_char comp_def)
  have ih: "get_formats (length d) (put_formats d @ rest) = (d, rest)"
    using Cons by simp
  show ?case
    by (simp add: entry readUInt32_append un up length_writeUInt32 names ih
        del: map_map)
qed

lemma example_codec:
  assumes "length (item_data item) < 2 ^ 32"
    and "\<forall>(name, payload)\<in>set (item_data item). length name < 2 ^ 32 \<and> length payload < 2 ^ 32"
  shows "example_get_item (example_put_item item @ rest) = (item, rest)"
proof -
  have "unat (word_of_nat (length (item_data item)) :: 32 word) = length (item_data item)"
    using assms(1) by (simp add: unat_of_nat)
  then show ?thesis
    by (simp add: example_get_item_def example_put_item_def readUInt32_append
        length_writeUInt32 get_put_formats [OF assms(2)])
qed

lemma example_codec_bundles:
  "\<forall>item\<in>set (map ClipboardItem [bundle_A, bundle_B, bundle_C]). \<forall>rest.
     example_get_item (example_put_item item @ rest) = (item, rest)"
  by (auto intro!: example_codec simp: bundle_A_def bundle_B_def bundle_C_def)

text \<open>
  Instances with the example serializer: \<open>[A, B, C]\<close> saved and loaded into a history
  that holds \<open>D\<close>, with capacity 3, and into an empty one.
\<close>

theorem read_model_appends_witness:
  "rowCount (example_model [bundle_A, bundle_B, bundle_C] 3) < 2 ^ 31
   \<and> (\<exists>stream. write_model example_put_item [] (example_model [bundle_A, bundle_B, bundle_C] 3)
          = Some stream
        \<and> snd (read_model example_get_item stream (example_model [bundle_D] 3))
          = example_model [bundle_D, bundle_A, bundle_B] 3
        \<and> snd (read_model example_get_item stream
                 (example_model [bundle_D, bundle_C, bundle_B] 3))
          = example_model [bundle_D, bundle_C, bundle_B] 3)"
proof -
  let ?src = "example_model [bundle_A, bundle_B, bundle_C] 3"
  have c: "\<forall>item\<in>set (m_clipboardList ?src). \<forall>rest.
             example_get_item (example_put_item item @ rest) = (item, rest)"
    using example_codec_bundles by (simp add: example_model_def)
  have s: "rowCount ?src < 2 ^ 31"
    by (simp add: example_model_def rowCount_def)
  obtain stream where w: "write_model example_put_item [] ?src = Some stream"
    by (simp add: write_model_eq)
  from read_model_appends [OF c s w, of "example_model [bundle_D] 3"]
    read_model_appends [OF c s w, of "example_model [bundle_D, bundle_C, bundle_B] 3"]
  have "snd (read_model example_get_item stream (example_model [bundle_D] 3))
          = example_model [bundle_D, bundle_A, bundle_B] 3
        \<and> snd (read_model example_get_item stream
                 (example_model [bundle_D, bundle_C, bundle_B] 3))
          = example_model [bundle_D, bundle_C, bundle_B] 3"
    by (simp add: example_model_def rowCount_def maxItems_of_def)
  with s w show ?thesis by blast
qed

theorem save_load_round_trip_witness:
  "rowCount (example_model [bundle_A, bundle_B, bundle_C] 3) < 2 ^ 31
   \<and> m_clipboardList (example_model [] 3) = []
   \<and> m_max (example_model [] 3) = m_max (example_model [bundle_A, bundle_B, bundle_C] 3)
   \<and> rowCount (example_model [bundle_A, bundle_B, bundle_C] 3)
       \<le> m_max (example_model [bundle_A, bundle_B, bundle_C] 3)
   \<and> (\<exists>stream. write_model example_put_item [] (example_model [bundle_A, bundle_B, bundle_C] 3)
          = Some stream
        \<and> read_model example_get_item stream (example_model [] 3)
          = ([], example_model [bundle_A, bundle_B, bundle_C] 3))"
proof -
  let ?src = "example_model [bundle_A, bundle_B, bundle_C] 3"
  have c: "\<forall>item\<in>set (m_clipboardList ?src). \<forall>rest.
             example_get_item (example_put_item item @ rest) = (item, rest)"
    using example_codec_bundles by (simp add: example_model_def)
  have s: "rowCount ?src < 2 ^ 31"
    and e: "m_clipboardList (example_model [] 3) = []"
    and m: "m_max (example_model [] 3) = m_max ?src"
    and le: "rowCount ?src \<le> m_max ?src"
    by (simp_all add: example_model_def rowCount_def)
  from save_load_round_trip [OF c s e m] le
  obtain stream where "write_model example_put_item [] ?src = Some stream"
    and "read_model example_get_item stream (example_model [] 3)
          = ([], (example_model [] 3)\<lparr>m_clipboardList := m_clipboardList ?src\<rparr>)"
    by blast
  moreover have "(example_model [] 3)\<lparr>m_clipboardList := m_clipboardList ?src\<rparr> = ?src"
    by (simp add: example_model_def)
  ultimately show ?thesis
    using s e m le by auto
qed

section \<open>Sorting a selection\<close>

text \<open>The sort of Qt 4 returns a permutation of its input, whatever the comparison.\<close>

lemma mset_qSwap:
  "i < length xs \<Longrightarrow> j < length xs \<Longrightarrow> mset (qSwap i j xs) = mset xs"
  unfolding qSwap_def by (rule mset_swap)

lemma mset_partition_loop:
  "high < length xs \<Longrightarrow> mset (fst (partition_loop lt xs e low high)) = mset xs"
proof (induction lt xs e low high rule: partition_loop.induct)
  case (1 lt xs e low high)
  show ?case
  proof (cases "low < high")
    case False
    then show ?thesis by (subst partition_loop.simps) simp
  next
    case True
    define low1 where "low1 = scan_low lt xs e low high"
    define high1 where "high1 = scan_high lt xs e low1 high"
    have b2: "high1 \<le> high" using scan_high_bounds [of lt xs e low1 high]
      by (simp add: high1_def)
    show ?thesis
    proof (cases "low1 < high1")
      case False
      with True show ?thesis
        by (subst partition_loop.simps) (simp add: Let_def low1_def high1_def)
    next
      case lt: True
      have eq: "partition_loop lt xs e low high
            = partition_loop lt (qSwap low1 high1 xs) e (Suc low1) (high1 - 1)"
        using True lt by (subst partition_loop.simps) (simp add: Let_def low1_def high1_def)
      have in_range: "low1 < length xs" "high1 < length xs"
        using lt b2 "1.prems" by simp_all
      then have "high1 - 1 < length (qSwap low1 high1 xs)"
        by (simp add: length_qSwap)
      from "1.IH" [OF True low1_def high1_def lt this] in_range show ?thesis
        unfolding eq by (simp add: mset_qSwap)
    qed
  qed
qed

lemma mset_qSortHelper: "mset (qSortHelper lt xs) = mset xs"
proof (induction lt xs rule: qSortHelper.induct)
  case (1 lt xs)
  define span where "span = length xs"
  define e where "e = span - 1"
  define pivot where "pivot = span div 2"
  define xs1 where "xs1 = (if lt (xs ! e) (xs ! 0) then qSwap e 0 xs else xs)"
  define xs2 where "xs2 = (if lt (xs1 ! pivot) (xs1 ! 0) then qSwap pivot 0 xs1 else xs1)"
  define xs3 where "xs3 = (if lt (xs2 ! e) (xs2 ! pivot) then qSwap e pivot xs2 else xs2)"
  define xs4 where "xs4 = qSwap pivot e xs3"
  define part where "part = partition_loop lt xs4 e 0 (e - 1)"
  define xs5 where "xs5 = fst part"
  define low where "low = snd part"
  define low1 where "low1 = (if lt (xs5 ! low) (xs5 ! e) then Suc low else low)"
  define xs6 where "xs6 = qSwap e low1 xs5"
  note defs = span_def e_def pivot_def xs1_def xs2_def xs3_def xs4_def part_def xs5_def
    low_def low1_def xs6_def
  have step: "qSortHelper lt xs
      = (if span < 2 then xs
         else if span = 2 then xs1
         else if span = 3 then xs3
         else qSortHelper lt (take low1 xs6) @ xs6 ! low1
                # qSortHelper lt (drop (Suc low1) xs6))"
    by (subst qSortHelper.simps) (simp only: defs Let_def)
  show ?case
  proof (cases "span < 2")
    case True
    then show ?thesis by (simp add: step)
  next
    case big: False
    then have idx: "e < length xs" "pivot < length xs" "0 < length xs"
      by (auto simp: e_def pivot_def span_def)
    have m1: "mset xs1 = mset xs" and l1: "length xs1 = length xs"
      using idx by (simp_all add: xs1_def mset_qSwap length_qSwap)
    have m2: "mset xs2 = mset xs" and l2: "length xs2 = length xs"
      using idx by (simp_all add: xs2_def mset_qSwap length_qSwap m1 l1)
    have m3: "mset xs3 = mset xs" and l3: "length xs3 = length xs"
      using idx by (simp_all add: xs3_def mset_qSwap length_qSwap m2 l2)
    show ?thesis
    proof (cases "span = 2 \<or> span = 3")
      case True
      then show ?thesis
        using big m1 m3 by (auto simp: step)
    next
      case False
      then have n2: "span \<noteq> 2" and n3: "span \<noteq> 3" by simp_all
      have m4: "mset xs4 = mset xs" and l4: "length xs4 = length xs"
        using idx by (simp_all add: xs4_def mset_qSwap length_qSwap m3 l3)
      have "e - 1 < length xs4" using idx by (simp add: l4)
      then have m5: "mset xs5 = mset xs"
        by (simp add: xs5_def part_def mset_partition_loop m4)
      have "2 \<le> length xs4" using big by (simp add: l4 span_def)
      moreover have "e = length xs4 - 1" by (simp add: e_def l4 span_def)
      ultimately have b: "length xs6 = length xs4 \<and> low1 < length xs4"
        using part_def xs5_def low_def low1_def xs6_def by (rule partition_split_bounds)
      have l5: "length xs5 = length xs"
        using b by (simp add: xs6_def length_qSwap l4)
      have m6: "mset xs6 = mset xs"
        using idx b by (simp add: xs6_def mset_qSwap l5 l4 m5)
      have unfold: "qSortHelper lt xs
          = qSortHelper lt (take low1 xs6) @ xs6 ! low1 # qSortHelper lt (drop (Suc low1) xs6)"
        using big n2 n3 by (simp add: step)
      have ih1: "mset (qSortHelper lt (take low1 xs6)) = mset (take low1 xs6)"
        by (rule "1.IH"(1) [OF span_def big e_def pivot_def xs1_def n2 xs2_def xs3_def n3
              xs4_def part_def xs5_def low_def low1_def xs6_def])
      have ih2: "mset (qSortHelper lt (drop (Suc low1) xs6)) = mset (drop (Suc low1) xs6)"
        by (rule "1.IH"(2) [OF span_def big e_def pivot_def xs1_def n2 xs2_def xs3_def n3
              xs4_def part_def xs5_def low_def low1_def xs6_def])
      have "low1 < length xs6" using b by simp
      then have split: "take low1 xs6 @ xs6 ! low1 # drop (Suc low1) xs6 = xs6"
        by (rule id_take_nth_drop [symmetric])
      have "mset (qSortHelper lt xs)
          = mset (take low1 xs6 @ xs6 ! low1 # drop (Suc low1) xs6)"
        unfolding unfold by (simp add: ih1 ih2)
      also have "\<dots> = mset xs"
        by (simp only: split m6)
      finally show ?thesis .
    qed
  qed
qed

lemma mset_qt4_qSort: "mset (qt4_qSort lt xs) = mset xs"
  by (simp add: qt4_qSort_def mset_qSortHelper)

lemma collectRows_in_range:
  assumes "\<forall>row\<in>set indexList. 0 \<le> row \<and> row < int (length xs)"
  shows "collectRows indexList xs = Inr (Some (map (\<lambda>row. (row, xs ! nat row)) indexList))"
  using assms by (induction indexList) simp_all

text \<open>
  The last loop, when the target rows are distinct and every pair that is skipped
  already sits in its row: row \<open>rows[i]\<close> ends with the item of \<open>list[i]\<close>, every
  other row keeps its item.
\<close>

lemma writeBack_nth:
  assumes "length list = length rows" and "distinct rows"
    and "\<forall>row\<in>set rows. 0 \<le> row \<and> nat row < length xs"
    and "\<forall>i < length list. fst (list ! i) = rows ! i \<longrightarrow> xs ! nat (rows ! i) = snd (list ! i)"
  shows "length (writeBack list rows xs) = length xs
       \<and> (\<forall>i < length list. writeBack list rows xs ! nat (rows ! i) = snd (list ! i))
       \<and> (\<forall>k < length xs. int k \<notin> set rows \<longrightarrow> writeBack list rows xs ! k = xs ! k)"
  using assms
proof (induction list rows arbitrary: xs rule: list_induct2)
  case Nil
  then show ?case by simp
next
  case (Cons pair list row2 rows)
  obtain row1 item where pair: "pair = (row1, item)" by (cases pair)
  define ys where "ys = (if row1 \<noteq> row2 then xs[nat row2 := item] else xs)"
  have r2: "0 \<le> row2" "nat row2 < length xs"
    using Cons.prems(2) by simp_all
  have "row1 = row2 \<longrightarrow> xs ! nat row2 = item"
    using Cons.prems(3) [THEN spec, of 0] by (simp add: pair)
  then have ys: "ys = xs[nat row2 := item]"
    by (auto simp: ys_def)
  have other: "nat row \<noteq> nat row2" if "row \<in> set rows" for row
  proof -
    from that Cons.prems(1) have "row \<noteq> row2" by auto
    moreover from that Cons.prems(2) have "0 \<le> row" by simp
    ultimately show ?thesis using r2(1) by simp
  qed
  have pre2: "\<forall>row\<in>set rows. 0 \<le> row \<and> nat row < length ys"
    using Cons.prems(2) by (simp add: ys)
  have pre3: "\<forall>i < length list. fst (list ! i) = rows ! i \<longrightarrow> ys ! nat (rows ! i) = snd (list ! i)"
  proof (intro allI impI)
    fix i assume i: "i < length list" and eq: "fst (list ! i) = rows ! i"
    from i Cons.hyps have "rows ! i \<in> set rows" by simp
    then have "nat (rows ! i) \<noteq> nat row2"
      by (rule other)
    then have "ys ! nat (rows ! i) = xs ! nat (rows ! i)"
      by (simp add: ys)
    also have "\<dots> = snd (list ! i)"
      using Cons.prems(3) [THEN spec, of "Suc i"] i eq by simp
    finally show "ys ! nat (rows ! i) = snd (list ! i)" .
  qed
  from Cons.prems(1) have "distinct rows" by simp
  from Cons.IH [OF this pre2 pre3]
  have len: "length (writeBack list rows ys) = length ys"
    and hit: "\<forall>i < length list. writeBack list rows ys ! nat (rows ! i) = snd (list ! i)"
    and miss: "\<forall>k < length ys. int k \<notin> set rows \<longrightarrow> writeBack list rows ys ! k = ys ! k"
    by blast+
  have wb: "writeBack (pair # list) (row2 # rows) xs = writeBack list rows ys"
    by (simp add: pair ys_def)
  have "int (nat row2) \<notin> set rows"
    using Cons.prems(1) r2(1) by simp
  then have first: "writeBack list rows ys ! nat row2 = item"
    using miss r2(2) by (simp add: ys)
  have "\<forall>i < length (pair # list).
          writeBack (pair # list) (row2 # rows) xs ! nat ((row2 # rows) ! i)
            = snd ((pair # list) ! i)"
  proof (intro allI impI)
    fix i assume "i < length (pair # list)"
    then show "writeBack (pair # list) (row2 # rows) xs ! nat ((row2 # rows) ! i)
            = snd ((pair # list) ! i)"
      using first hit unfolding wb by (cases i) (simp_all add: pair)
  qed
  moreover have "\<forall>k < length xs. int k \<notin> set (row2 # rows) \<longrightarrow>
          writeBack (pair # list) (row2 # rows) xs ! k = xs ! k"
  proof (intro allI impI)
    fix k assume k: "k < length xs" and out: "int k \<notin> set (row2 # rows)"
    then have "k \<noteq> nat row2" using r2(1) by auto
    then have "ys ! k = xs ! k" by (simp add: ys)
    moreover have "writeBack list rows ys ! k = ys ! k"
      using miss k out by (simp add: ys)
    ultimately show "writeBack (pair # list) (row2 # rows) xs ! k = xs ! k"
      unfolding wb by simp
  qed
  moreover have "length (writeBack (pair # list) (row2 # rows) xs) = length xs"
    unfolding wb len by (simp add: ys)
  ultimately show ?case by blast
qed


text \<open>
  C7, as amended. For a list of distinct rows, all in range, and a sorting routine that
  returns a permutation of its input, \<open>sortItems\<close> changes only the listed rows: the
  history keeps its length, every row that is not listed keeps its item, the listed
  rows in ascending order hold the items in the order the sorting routine returned
  them, and so the listed rows hold the same items as before, rearranged. Nothing is
  said about items that compare equal: \<open>qSort\<close> is not a stable sort.
\<close>

theorem sortItems_distinct_rows:
  assumes "distinct indexList"
    and "\<forall>row\<in>set indexList. 0 \<le> row \<and> row < rowCount model"
    and "mset (qSort compare (map (\<lambda>row. (row, m_clipboardList model ! nat row)) indexList))
         = mset (map (\<lambda>row. (row, m_clipboardList model ! nat row)) indexList)"
  shows "\<exists>sorted.
      sortItems qSort indexList compare model = Some (model\<lparr>m_clipboardList := sorted\<rparr>)
    \<and> length sorted = length (m_clipboardList model)
    \<and> (\<forall>k < length sorted. int k \<notin> set indexList \<longrightarrow> sorted ! k = m_clipboardList model ! k)
    \<and> map (\<lambda>row. sorted ! nat row) (sort indexList)
        = map snd (qSort compare (map (\<lambda>row. (row, m_clipboardList model ! nat row)) indexList))
    \<and> mset (map (\<lambda>row. sorted ! nat row) indexList)
        = mset (map (\<lambda>row. m_clipboardList model ! nat row) indexList)"
proof -
  let ?xs = "m_clipboardList model"
  let ?list = "map (\<lambda>row. (row, ?xs ! nat row)) indexList"
  let ?l = "qSort compare ?list"
  let ?rows = "sort indexList"
  define sorted where "sorted = writeBack ?l ?rows ?xs"
  have inr: "\<forall>row\<in>set indexList. 0 \<le> row \<and> row < int (length ?xs)"
    using assms(2) by (simp add: rowCount_def)
  have fsts: "map fst ?list = indexList"
    by (simp add: comp_def)
  have run: "sortItems qSort indexList compare model = Some (model\<lparr>m_clipboardList := sorted\<rparr>)"
    unfolding sortItems_def collectRows_in_range [OF inr] sorted_def by (simp add: comp_def)
  have "size (mset ?l) = size (mset ?list)"
    using assms(3) by simp
  then have len: "length ?l = length ?rows"
    by simp
  have dist: "distinct ?rows"
    using assms(1) by simp
  have rng: "\<forall>row\<in>set ?rows. 0 \<le> row \<and> nat row < length ?xs"
    using inr by auto
  have "set ?l = set ?list"
    using assms(3) by (metis set_mset_mset)
  then have pairs: "snd p = ?xs ! nat (fst p)" if "p \<in> set ?l" for p
    using that by auto
  have kept: "\<forall>i < length ?l. fst (?l ! i) = ?rows ! i \<longrightarrow> ?xs ! nat (?rows ! i) = snd (?l ! i)"
  proof (intro allI impI)
    fix i assume "i < length ?l" and eq: "fst (?l ! i) = ?rows ! i"
    then have "?l ! i \<in> set ?l" by simp
    from pairs [OF this] eq show "?xs ! nat (?rows ! i) = snd (?l ! i)" by simp
  qed
  from writeBack_nth [OF len dist rng kept]
  have slen: "length sorted = length ?xs"
    and hit: "\<forall>i < length ?l. sorted ! nat (?rows ! i) = snd (?l ! i)"
    and miss: "\<forall>k < length ?xs. int k \<notin> set ?rows \<longrightarrow> sorted ! k = ?xs ! k"
    unfolding sorted_def by blast+
  have others: "\<forall>k < length sorted. int k \<notin> set indexList \<longrightarrow> sorted ! k = ?xs ! k"
    using miss by (simp add: slen)
  have order: "map (\<lambda>row. sorted ! nat row) ?rows = map snd ?l"
    using hit len by (intro nth_equalityI) simp_all
  have "mset (map (\<lambda>row. sorted ! nat row) indexList)
        = image_mset (\<lambda>row. sorted ! nat row) (mset ?rows)"
    by simp
  also have "\<dots> = mset (map snd ?l)"
    using order by (metis mset_map)
  also have "\<dots> = image_mset snd (mset ?list)"
    using assms(3) by (metis mset_map)
  also have "\<dots> = mset (map (\<lambda>row. ?xs ! nat row) indexList)"
    by (simp add: comp_def flip: mset_map)
  finally have same: "mset (map (\<lambda>row. sorted ! nat row) indexList)
        = mset (map (\<lambda>row. ?xs ! nat row) indexList)" .
  from run slen others order same show ?thesis by blast
qed


text \<open>
  An instance with the sort of Qt 4 and \<open>alphaSort\<close>: rows 3, 1 and 0 of
  \<open>[D, B, C, A]\<close> are sorted by text, row 2 stays.
\<close>

theorem sortItems_distinct_rows_witness:
  "distinct [3, 1, 0 :: int]
   \<and> (\<exists>sorted.
        sortItems qt4_qSort [3, 1, 0] (alphaSort compare_code_units)
            (example_model [bundle_D, bundle_B, bundle_C, bundle_A] 100)
          = Some ((example_model [bundle_D, bundle_B, bundle_C, bundle_A] 100)
                    \<lparr>m_clipboardList := sorted\<rparr>)
      \<and> length sorted = 4
      \<and> sorted ! 2 = ClipboardItem bundle_C
      \<and> map (\<lambda>row. sorted ! nat row) [0, 1, 3]
          = map ClipboardItem [bundle_A, bundle_B, bundle_D])
   \<and> sortItems qt4_qSort [3, 1, 0] (alphaSort compare_code_units)
         (example_model [bundle_D, bundle_B, bundle_C, bundle_A] 100)
       = Some (example_model [bundle_A, bundle_B, bundle_C, bundle_D] 100)"
proof -
  let ?model = "example_model [bundle_D, bundle_B, bundle_C, bundle_A] 100"
  let ?cmp = "alphaSort compare_code_units"
  have list: "map (\<lambda>row. (row, m_clipboardList ?model ! nat row)) [3, 1, 0]
      = [(3, ClipboardItem bundle_A), (1, ClipboardItem bundle_B), (0, ClipboardItem bundle_D)]"
    by (simp add: example_model_def)
  have q: "qt4_qSort ?cmp
        [(3, ClipboardItem bundle_A), (1, ClipboardItem bundle_B), (0, ClipboardItem bundle_D)]
      = [(3, ClipboardItem bundle_A), (1, ClipboardItem bundle_B), (0, ClipboardItem bundle_D)]"
    by code_simp
  have h1: "distinct [3, 1, 0 :: int]" by simp
  have h2: "\<forall>row\<in>set [3, 1, 0]. 0 \<le> row \<and> row < rowCount ?model"
    by (simp add: example_model_def rowCount_def)
  have h3: "mset (qt4_qSort ?cmp (map (\<lambda>row. (row, m_clipboardList ?model ! nat row)) [3, 1, 0]))
      = mset (map (\<lambda>row. (row, m_clipboardList ?model ! nat row)) [3, 1, 0])"
    by (rule mset_qt4_qSort)
  have srt: "sort [3, 1, 0 :: int] = [0, 1, 3]" by simp
  from sortItems_distinct_rows [where qSort = qt4_qSort and compare = ?cmp, OF h1 h2 h3]
  obtain sorted where
    run: "sortItems qt4_qSort [3, 1, 0] ?cmp ?model = Some (?model\<lparr>m_clipboardList := sorted\<rparr>)"
    and len: "length sorted = length (m_clipboardList ?model)"
    and others: "\<forall>k < length sorted. int k \<notin> set [3, 1, 0] \<longrightarrow> sorted ! k = m_clipboardList ?model ! k"
    and order: "map (\<lambda>row. sorted ! nat row) (sort [3, 1, 0])
        = map snd (qt4_qSort ?cmp (map (\<lambda>row. (row, m_clipboardList ?model ! nat row)) [3, 1, 0]))"
    by blast
  have l4: "length sorted = 4"
    using len by (simp add: example_model_def)
  have s2: "sorted ! 2 = ClipboardItem bundle_C"
    using others [THEN spec, of 2] l4 by (simp add: example_model_def)
  have ord: "map (\<lambda>row. sorted ! nat row) [0, 1, 3]
      = map ClipboardItem [bundle_A, bundle_B, bundle_D]"
    using order unfolding list q srt by simp
  have direct: "sortItems qt4_qSort [3, 1, 0] ?cmp ?model
      = Some (example_model [bundle_A, bundle_B, bundle_C, bundle_D] 100)"
    by code_simp
  from h1 run l4 s2 ord direct show ?thesis by blast
qed

text \<open>
  C7 as stated fails in two ways, shown with the sort of Qt 4. Stability: the first
  two items of \<open>[B with html, B, A]\<close> have the same text, so neither is less than the
  other under \<open>alphaSort\<close>, and sorting rows 0, 1, 2 puts the second before the first.
  Repeated positions: sorting the rows 0, 0, 1, 2 of \<open>[A, B, C]\<close> with \<open>reverseSort\<close>
  loses \<open>C\<close> and leaves \<open>A\<close> in two rows.
\<close>

theorem sortItems_counterexample:
  "sortItems qt4_qSort [0, 1, 2] (alphaSort compare_code_units)
       (example_model [bundle_B_html, bundle_B, bundle_A] 100)
     = Some (example_model [bundle_A, bundle_B, bundle_B_html] 100)
   \<and> \<not> alphaSort compare_code_units (0, ClipboardItem bundle_B_html) (1, ClipboardItem bundle_B)
   \<and> \<not> alphaSort compare_code_units (1, ClipboardItem bundle_B) (0, ClipboardItem bundle_B_html)
   \<and> sortItems qt4_qSort [0, 0, 1, 2] reverseSort (example_model [bundle_A, bundle_B, bundle_C] 100)
     = Some (example_model [bundle_B, bundle_A, bundle_A] 100)"
  by code_simp

end
